theory Spec2Isabelle
  imports Main
begin

section \<open>The promise of \<^verbatim>\<open>promises.go\<close>\<close>

text \<open>
  The development follows \<^verbatim>\<open>src/promises.go\<close>. A Go \<^verbatim>\<open>error\<close> is an interface value that
  may be \<^verbatim>\<open>nil\<close>: it is an \<open>error option\<close> here, \<open>None\<close> for \<^verbatim>\<open>nil\<close>. The package's own
  \<^verbatim>\<open>errNilReason\<close> is a constructor of its own, as \<^verbatim>\<open>errors.New\<close> returns a value equal
  to no other error; the two errors of package \<^verbatim>\<open>context\<close> and the errors a caller
  makes are the other constructors.
\<close>

datatype error = errNilReason | ctxCanceled | ctxDeadlineExceeded | userError string

text \<open>
  What stops a goroutine in this package: closing a channel that is closed already, and
  a \<^verbatim>\<open>sync.WaitGroup\<close> counter that goes below zero.
\<close>

datatype panic = CloseOfClosedChannel | NegativeWaitGroupCounter

text \<open>
  \<^verbatim>\<open>option.Option[T]\<close> of the imported package is the HOL option type. Its method
  \<^verbatim>\<open>Value()\<close> returns the value and whether there is one; without one the value is the
  zero value of \<^verbatim>\<open>T\<close>, which the model takes as the argument \<open>zero\<close>.
\<close>

definition Option_Value :: "'a \<Rightarrow> 'a option \<Rightarrow> 'a \<times> bool" where
  "Option_Value zero o' = (case o' of None \<Rightarrow> (zero, False) | Some v \<Rightarrow> (v, True))"

text \<open>
  The struct \<^verbatim>\<open>Promise[T]\<close>. The channel \<^verbatim>\<open>done\<close> carries no message, it is only ever
  closed: \<open>done_ch\<close> says whether it is closed. The mutex is not a field of the model:
  every operation below is one atomic step, which is what the lock gives the source.
\<close>

record 'a Promise =
  optionalValue :: "'a option"
  reason :: "error option"
  done_ch :: bool

definition isFulfilled :: "'a Promise \<Rightarrow> bool" where
  "isFulfilled p = (optionalValue p \<noteq> None)"

definition isRejected :: "'a Promise \<Rightarrow> bool" where
  "isRejected p = (reason p \<noteq> None)"

definition isSettled :: "'a Promise \<Rightarrow> bool" where
  "isSettled p = (isFulfilled p \<or> isRejected p)"

text \<open>The promise that \<^verbatim>\<open>New\<close> allocates before it starts the executor.\<close>

definition New :: "'a Promise" where
  "New = \<lparr>optionalValue = None, reason = None, done_ch = False\<rparr>"

text \<open>
  The deferred \<^verbatim>\<open>close(p.done)\<close> runs after the assignment, and panics when the channel
  is closed already.
\<close>

definition close_done :: "'a Promise \<Rightarrow> panic + 'a Promise" where
  "close_done p = (if done_ch p then Inl CloseOfClosedChannel else Inr (p\<lparr>done_ch := True\<rparr>))"

definition resolve :: "'a \<Rightarrow> 'a Promise \<Rightarrow> panic + 'a Promise" where
  "resolve v p =
     (if isSettled p then Inr p
      else close_done (p\<lparr>optionalValue := Some v\<rparr>))"

definition reject :: "error option \<Rightarrow> 'a Promise \<Rightarrow> panic + 'a Promise" where
  "reject r p =
     (if isSettled p then Inr p
      else if r = None then close_done (p\<lparr>reason := Some errNilReason\<rparr>)
      else close_done (p\<lparr>reason := r\<rparr>))"

text \<open>
  An executor, as far as the promise sees it, is the sequence of its calls to
  \<^verbatim>\<open>resolve\<close> and \<^verbatim>\<open>reject\<close>.
\<close>

datatype 'a call = Resolve 'a | Reject "error option"

fun settle :: "'a call \<Rightarrow> 'a Promise \<Rightarrow> panic + 'a Promise" where
  "settle (Resolve v) p = resolve v p"
| "settle (Reject r) p = reject r p"

fun executor :: "'a call list \<Rightarrow> 'a Promise \<Rightarrow> panic + 'a Promise" where
  "executor [] p = Inr p"
| "executor (c # cs) p = (case settle c p of Inl e \<Rightarrow> Inl e | Inr p' \<Rightarrow> executor cs p')"

text \<open>
  The state every promise made by \<^verbatim>\<open>New\<close> is in: the channel is closed exactly when the
  promise is settled, and a promise is never both fulfilled and rejected.
\<close>

definition coherent :: "'a Promise \<Rightarrow> bool" where
  "coherent p = ((done_ch p = isSettled p) \<and> \<not> (isFulfilled p \<and> isRejected p))"

subsection \<open>The cancellation token and the wait\<close>

text \<open>
  Of a \<^verbatim>\<open>context.Context\<close> the package uses two methods: \<^verbatim>\<open>Done()\<close>, a channel that is
  closed when the token fires, and \<^verbatim>\<open>Err()\<close>. It is an interface, so the two are
  independent fields.
\<close>

record Context =
  ctx_done :: bool
  ctx_err :: "error option"

text \<open>
  Every wait of the package is the same \<^verbatim>\<open>select\<close> over the two channels. It blocks
  while neither is closed (\<open>None\<close>); when both are closed, Go takes either case, and
  \<open>pick\<close> is the case it takes then.
\<close>

datatype select_case = CtxDone | PromiseDone

definition select_done :: "select_case \<Rightarrow> Context \<Rightarrow> 'a Promise \<Rightarrow> select_case option" where
  "select_done pick ctx p =
     (if ctx_done ctx \<and> done_ch p then Some pick
      else if ctx_done ctx then Some CtxDone
      else if done_ch p then Some PromiseDone
      else None)"

definition Await :: "'a \<Rightarrow> select_case \<Rightarrow> Context \<Rightarrow> 'a Promise \<Rightarrow> ('a \<times> error option) option" where
  "Await zero pick ctx p =
     (case select_done pick ctx p of
        None \<Rightarrow> None
      | Some CtxDone \<Rightarrow> Some (fst (Option_Value zero None), ctx_err ctx)
      | Some PromiseDone \<Rightarrow> Some (fst (Option_Value zero (optionalValue p)), reason p))"

text \<open>
  The callbacks act on the caller's state \<open>'s\<close>. \<^verbatim>\<open>Then\<close>, \<^verbatim>\<open>Catch\<close> and \<^verbatim>\<open>Finally\<close>
  return a pointer: \<open>None\<close> is \<^verbatim>\<open>nil\<close>, \<open>Some p\<close> the receiver.
\<close>

definition Then :: "'a \<Rightarrow> select_case \<Rightarrow> Context \<Rightarrow> ('a \<Rightarrow> 's \<Rightarrow> 's) \<Rightarrow> 'a Promise \<Rightarrow> 's
    \<Rightarrow> ('s \<times> 'a Promise option) option" where
  "Then zero pick ctx onFulfilled p s =
     (case select_done pick ctx p of
        None \<Rightarrow> None
      | Some CtxDone \<Rightarrow> Some (s, None)
      | Some PromiseDone \<Rightarrow>
          (case Option_Value zero (optionalValue p) of
             (v, ok) \<Rightarrow> if \<not> ok then Some (s, Some p) else Some (onFulfilled v s, Some p)))"

definition Catch :: "select_case \<Rightarrow> Context \<Rightarrow> (error \<Rightarrow> 's \<Rightarrow> 's) \<Rightarrow> 'a Promise \<Rightarrow> 's
    \<Rightarrow> ('s \<times> 'a Promise option) option" where
  "Catch pick ctx onRejected p s =
     (case select_done pick ctx p of
        None \<Rightarrow> None
      | Some CtxDone \<Rightarrow> Some (s, None)
      | Some PromiseDone \<Rightarrow>
          (case reason p of
             None \<Rightarrow> Some (s, Some p)
           | Some r \<Rightarrow> Some (onRejected r s, Some p)))"

definition Finally :: "select_case \<Rightarrow> Context \<Rightarrow> ('s \<Rightarrow> 's) \<Rightarrow> 'a Promise \<Rightarrow> 's
    \<Rightarrow> ('s \<times> 'a Promise option) option" where
  "Finally pick ctx onFinally p s =
     (case select_done pick ctx p of
        None \<Rightarrow> None
      | Some CtxDone \<Rightarrow> Some (s, None)
      | Some PromiseDone \<Rightarrow> Some (onFinally s, Some p))"

subsection \<open>The aggregators\<close>

text \<open>
  \<^verbatim>\<open>sync.WaitGroup\<close> is its counter. \<^verbatim>\<open>Done\<close> panics when the counter would go below
  zero; \<^verbatim>\<open>Wait\<close> returns only when it is zero.
\<close>

definition wg_Done :: "int \<Rightarrow> panic + int" where
  "wg_Done c = (if c - 1 < 0 then Inl NegativeWaitGroupCounter else Inr (c - 1))"

text \<open>
  The executor that \<^verbatim>\<open>All\<close> hands to \<^verbatim>\<open>New\<close> runs beside one goroutine for each input
  promise. A state of this fan-in holds the parent promise, the shared slice
  \<^verbatim>\<open>results\<close>, the counter of the wait group, the indices whose goroutine has returned
  and whether the executor itself has returned. What is scheduled is an \<open>event\<close>: the
  goroutine of an index gets to run (with the case its \<^verbatim>\<open>select\<close> takes when both
  channels are closed), or the executor gets to run from \<^verbatim>\<open>wg.Wait()\<close> on. A goroutine
  whose \<^verbatim>\<open>select\<close> has no closed channel stays blocked, and so does the executor
  while the counter is not zero: such an event leaves the state as it is. What a
  goroutine does after its wait (the write to its own slot or the \<^verbatim>\<open>reject\<close> under the
  parent's lock, then \<^verbatim>\<open>wg.Done()\<close>) is one event. The input promises and the token
  are given in the state in which the waits find them.
\<close>

datatype event = Child nat select_case | Join

record 'r fan_in =
  parent :: "'r list Promise"
  results :: "'r list"
  wg :: int
  exited :: "nat set"
  joined :: bool

definition fan_in_init :: "'r \<Rightarrow> nat \<Rightarrow> 'r fan_in" where
  "fan_in_init zero n =
     \<lparr>parent = New, results = replicate n zero, wg = int n, exited = {}, joined = False\<rparr>"

text \<open>The deferred \<^verbatim>\<open>wg.Done()\<close> of a goroutine, after which it has returned.\<close>

definition goroutine_exit :: "nat \<Rightarrow> 'r fan_in \<Rightarrow> panic + 'r fan_in" where
  "goroutine_exit i st =
     (case wg_Done (wg st) of
        Inl e \<Rightarrow> Inl e
      | Inr c \<Rightarrow> Inr (st\<lparr>wg := c, exited := insert i (exited st)\<rparr>))"

text \<open>\<^verbatim>\<open>wg.Wait()\<close> followed by \<^verbatim>\<open>resolve(results)\<close>, the end of both executors.\<close>

definition join_resolve :: "'r fan_in \<Rightarrow> panic + 'r fan_in" where
  "join_resolve st =
     (if joined st \<or> wg st \<noteq> 0 then Inr st
      else case resolve (results st) (parent st) of
             Inl e \<Rightarrow> Inl e
           | Inr p' \<Rightarrow> Inr (st\<lparr>parent := p', joined := True\<rparr>))"

text \<open>The goroutine of \<^verbatim>\<open>All\<close> for index \<open>i\<close>.\<close>

definition All_goroutine :: "'a \<Rightarrow> Context \<Rightarrow> 'a Promise list \<Rightarrow> nat \<Rightarrow> select_case
    \<Rightarrow> 'a fan_in \<Rightarrow> panic + 'a fan_in" where
  "All_goroutine zero ctx promises i pick st =
     (if length promises \<le> i \<or> i \<in> exited st then Inr st
      else case Await zero pick ctx (promises ! i) of
             None \<Rightarrow> Inr st
           | Some (v, err) \<Rightarrow>
               if err \<noteq> None then
                 (case reject err (parent st) of
                    Inl e \<Rightarrow> Inl e
                  | Inr p' \<Rightarrow> goroutine_exit i (st\<lparr>parent := p'\<rparr>))
               else goroutine_exit i (st\<lparr>results := (results st)[i := v]\<rparr>))"

fun All_step :: "'a \<Rightarrow> Context \<Rightarrow> 'a Promise list \<Rightarrow> event \<Rightarrow> 'a fan_in \<Rightarrow> panic + 'a fan_in" where
  "All_step zero ctx promises (Child i pick) st = All_goroutine zero ctx promises i pick st"
| "All_step zero ctx promises Join st = join_resolve st"

fun All_run :: "'a \<Rightarrow> Context \<Rightarrow> 'a Promise list \<Rightarrow> event list \<Rightarrow> 'a fan_in \<Rightarrow> panic + 'a fan_in" where
  "All_run zero ctx promises [] st = Inr st"
| "All_run zero ctx promises (ev # evs) st =
     (case All_step zero ctx promises ev st of
        Inl e \<Rightarrow> Inl e
      | Inr st' \<Rightarrow> All_run zero ctx promises evs st')"

text \<open>\<^verbatim>\<open>All(ctx, promises...)\<close> under the schedule \<open>evs\<close>.\<close>

definition All_promises :: "'a \<Rightarrow> Context \<Rightarrow> 'a Promise list \<Rightarrow> event list \<Rightarrow> panic + 'a fan_in" where
  "All_promises zero ctx promises evs =
     All_run zero ctx promises evs (fan_in_init zero (length promises))"

datatype Status = Fulfilled | Rejected

record 'a SettledResult =
  Status :: Status
  Value :: 'a
  Reason :: "error option"

text \<open>
  The zero value of \<^verbatim>\<open>SettledResult[T]\<close>, which \<^verbatim>\<open>make\<close> fills the slice with:
  \<^verbatim>\<open>Fulfilled\<close> is the constant 0.
\<close>

definition SettledResult_zero :: "'a \<Rightarrow> 'a SettledResult" where
  "SettledResult_zero zero = \<lparr>Status = Fulfilled, Value = zero, Reason = None\<rparr>"

text \<open>The goroutine of \<^verbatim>\<open>AllSettled\<close> for index \<open>i\<close>.\<close>

definition AllSettled_goroutine :: "'a \<Rightarrow> Context \<Rightarrow> 'a Promise list \<Rightarrow> nat \<Rightarrow> select_case
    \<Rightarrow> 'a SettledResult fan_in \<Rightarrow> panic + 'a SettledResult fan_in" where
  "AllSettled_goroutine zero ctx promises i pick st =
     (if length promises \<le> i \<or> i \<in> exited st then Inr st
      else case Await zero pick ctx (promises ! i) of
             None \<Rightarrow> Inr st
           | Some (v, err) \<Rightarrow>
               if err \<noteq> None then
                 goroutine_exit i
                   (st\<lparr>results := (results st)[i := \<lparr>Status = Rejected, Value = zero, Reason = err\<rparr>]\<rparr>)
               else
                 goroutine_exit i
                   (st\<lparr>results := (results st)[i := \<lparr>Status = Fulfilled, Value = v, Reason = None\<rparr>]\<rparr>))"

fun AllSettled_step :: "'a \<Rightarrow> Context \<Rightarrow> 'a Promise list \<Rightarrow> event
    \<Rightarrow> 'a SettledResult fan_in \<Rightarrow> panic + 'a SettledResult fan_in" where
  "AllSettled_step zero ctx promises (Child i pick) st = AllSettled_goroutine zero ctx promises i pick st"
| "AllSettled_step zero ctx promises Join st = join_resolve st"

fun AllSettled_run :: "'a \<Rightarrow> Context \<Rightarrow> 'a Promise list \<Rightarrow> event list
    \<Rightarrow> 'a SettledResult fan_in \<Rightarrow> panic + 'a SettledResult fan_in" where
  "AllSettled_run zero ctx promises [] st = Inr st"
| "AllSettled_run zero ctx promises (ev # evs) st =
     (case AllSettled_step zero ctx promises ev st of
        Inl e \<Rightarrow> Inl e
      | Inr st' \<Rightarrow> AllSettled_run zero ctx promises evs st')"

text \<open>\<^verbatim>\<open>AllSettled(ctx, promises...)\<close> under the schedule \<open>evs\<close>.\<close>

definition AllSettled :: "'a \<Rightarrow> Context \<Rightarrow> 'a Promise list \<Rightarrow> event list
    \<Rightarrow> panic + 'a SettledResult fan_in" where
  "AllSettled zero ctx promises evs =
     AllSettled_run zero ctx promises evs (fan_in_init (SettledResult_zero zero) (length promises))"

text \<open>
  What holds of the fan-in of \<open>n\<close> promises in every state it reaches: the parent is
  coherent, the counter is the number of goroutines that have not returned, the
  executor returns only after all of them and leaves the parent settled, and the
  parent is fulfilled only by the executor, with the slice.
\<close>

definition fan_in_inv :: "nat \<Rightarrow> 'r fan_in \<Rightarrow> bool" where
  "fan_in_inv n st =
     (coherent (parent st) \<and> exited st \<subseteq> {..<n} \<and> wg st = int n - int (card (exited st))
      \<and> length (results st) = n
      \<and> (joined st \<longrightarrow> exited st = {..<n} \<and> isSettled (parent st))
      \<and> (isFulfilled (parent st) \<longrightarrow> joined st \<and> optionalValue (parent st) = Some (results st)))"

section \<open>Settlement\<close>

lemma coherent_New: "coherent New"
  by (simp add: coherent_def New_def isSettled_def isFulfilled_def isRejected_def)

lemma resolve_pending:
  "coherent p \<Longrightarrow> \<not> isSettled p \<Longrightarrow> resolve v p = Inr (p\<lparr>optionalValue := Some v, done_ch := True\<rparr>)"
  by (simp add: resolve_def coherent_def close_done_def)

lemma reject_pending:
  "coherent p \<Longrightarrow> \<not> isSettled p \<Longrightarrow>
     reject r p = Inr (p\<lparr>reason := Some (case r of None \<Rightarrow> errNilReason | Some e \<Rightarrow> e), done_ch := True\<rparr>)"
  by (cases r) (simp_all add: reject_def coherent_def close_done_def)

lemma resolve_settled: "isSettled p \<Longrightarrow> resolve v p = Inr p"
  by (simp add: resolve_def)

lemma reject_settled: "isSettled p \<Longrightarrow> reject r p = Inr p"
  by (simp add: reject_def)

lemma coherent_resolve: "coherent p \<Longrightarrow> \<exists>p'. resolve v p = Inr p' \<and> coherent p'"
  by (cases "isSettled p")
     (auto simp add: resolve_settled resolve_pending coherent_def isSettled_def isFulfilled_def isRejected_def)

lemma coherent_reject: "coherent p \<Longrightarrow> \<exists>p'. reject r p = Inr p' \<and> coherent p'"
  by (cases "isSettled p")
     (auto simp add: reject_settled reject_pending coherent_def isSettled_def isFulfilled_def isRejected_def)

lemma coherent_settle: "coherent p \<Longrightarrow> \<exists>p'. settle c p = Inr p' \<and> coherent p'"
  by (cases c) (simp_all add: coherent_resolve coherent_reject)

text \<open>An executor never panics on the promise it was given, and leaves it coherent.\<close>

lemma executor_coherent: "coherent p \<Longrightarrow> \<exists>p'. executor cs p = Inr p' \<and> coherent p'"
proof (induction cs arbitrary: p)
  case Nil
  then show ?case by simp
next
  case (Cons c cs)
  from coherent_settle [OF Cons.prems, of c]
  obtain q where q: "settle c p = Inr q" "coherent q" by blast
  from Cons.IH [OF q(2)] q(1) show ?case by simp
qed

lemma settle_settled: "isSettled p \<Longrightarrow> settle c p = Inr p"
  by (cases c) (simp_all add: resolve_settled reject_settled)

lemma executor_settled: "isSettled p \<Longrightarrow> executor cs p = Inr p"
  by (induction cs) (simp_all add: settle_settled)

text \<open>
  Claim C1. On a settled promise \<^verbatim>\<open>resolve\<close> and \<^verbatim>\<open>reject\<close> return without a panic and
  leave the value, the reason and the channel as they are, whatever the argument and
  however many calls follow; settling takes no lock that is still held, every
  operation being one step. An executor that calls \<^verbatim>\<open>resolve(a)\<close> and then
  \<^verbatim>\<open>resolve(b)\<close>, and anything after, leaves the promise fulfilled with \<open>a\<close>.
\<close>

theorem settled_promise_ignores_resolve_and_reject:
  assumes "isSettled p"
  shows "resolve v p = Inr p \<and> reject r p = Inr p \<and> executor cs p = Inr p
    \<and> executor (Resolve a # Resolve b # cs') New
        = Inr \<lparr>optionalValue = Some a, reason = None, done_ch = True\<rparr>"
proof -
  have "resolve a New = Inr \<lparr>optionalValue = Some a, reason = None, done_ch = True\<rparr>"
    by (simp add: resolve_def New_def isSettled_def isFulfilled_def isRejected_def close_done_def)
  moreover have "isSettled \<lparr>optionalValue = Some a, reason = None, done_ch = True\<rparr>"
    by (simp add: isSettled_def isFulfilled_def)
  ultimately have "executor (Resolve a # Resolve b # cs') New
        = Inr \<lparr>optionalValue = Some a, reason = None, done_ch = True\<rparr>"
    by (simp add: resolve_settled executor_settled)
  with assms show ?thesis
    by (simp add: resolve_settled reject_settled executor_settled)
qed

theorem settled_promise_ignores_resolve_and_reject_witness:
  "isSettled \<lparr>optionalValue = Some (1::int), reason = None, done_ch = True\<rparr>
   \<and> resolve 2 \<lparr>optionalValue = Some (1::int), reason = None, done_ch = True\<rparr>
       = Inr \<lparr>optionalValue = Some 1, reason = None, done_ch = True\<rparr>
   \<and> reject (Some (userError ''late'')) \<lparr>optionalValue = Some (1::int), reason = None, done_ch = True\<rparr>
       = Inr \<lparr>optionalValue = Some 1, reason = None, done_ch = True\<rparr>
   \<and> executor [Resolve (1::int), Resolve 2] New
       = Inr \<lparr>optionalValue = Some 1, reason = None, done_ch = True\<rparr>"
proof -
  have h: "isSettled \<lparr>optionalValue = Some (1::int), reason = None, done_ch = True\<rparr>"
    by (simp add: isSettled_def isFulfilled_def)
  show ?thesis
    using h settled_promise_ignores_resolve_and_reject
      [OF h, of 2 "Some (userError ''late'')" "[]" 1 2 "[]"]
    by simp
qed

text \<open>
  Claim C4. \<^verbatim>\<open>reject(nil)\<close> never panics. On a promise that is not settled yet it stores
  \<^verbatim>\<open>errNilReason\<close>, which is not \<^verbatim>\<open>nil\<close> and differs from every error of the caller and
  of package \<^verbatim>\<open>context\<close>, closes the channel and leaves the value empty, so the promise
  is rejected; a settled promise it leaves as it is, so no promise is ever rejected
  with a \<^verbatim>\<open>nil\<close> reason.
\<close>

theorem reject_nil_stores_errNilReason:
  assumes "coherent p"
  shows "\<exists>p'. reject None p = Inr p' \<and> coherent p'
     \<and> (if isSettled p then p' = p
         else p' = p\<lparr>reason := Some errNilReason, done_ch := True\<rparr>
              \<and> isRejected p' \<and> \<not> isFulfilled p' \<and> reason p' \<noteq> None)
     \<and> errNilReason \<notin> {ctxCanceled, ctxDeadlineExceeded, userError msg}"
  using assms
  by (auto simp add: reject_def coherent_def close_done_def isSettled_def isFulfilled_def isRejected_def)

theorem reject_nil_stores_errNilReason_witness:
  "coherent (New :: int Promise)
   \<and> reject None (New :: int Promise)
       = Inr \<lparr>optionalValue = None, reason = Some errNilReason, done_ch = True\<rparr>"
proof -
  have h: "coherent (New :: int Promise)" by (rule coherent_New)
  from reject_nil_stores_errNilReason [OF h, of "[]"]
  obtain p' where "reject None (New :: int Promise) = Inr p'"
    and "if isSettled (New :: int Promise) then p' = New
         else p' = New\<lparr>reason := Some errNilReason, done_ch := True\<rparr>
              \<and> isRejected p' \<and> \<not> isFulfilled p' \<and> reason p' \<noteq> None"
    by blast
  then have "reject None (New :: int Promise)
       = Inr \<lparr>optionalValue = None, reason = Some errNilReason, done_ch = True\<rparr>"
    by (simp add: New_def isSettled_def isFulfilled_def isRejected_def)
  with h show ?thesis by simp
qed

section \<open>Waiting\<close>

text \<open>
  Claim C5. When the token has fired and the promise is not settled, \<^verbatim>\<open>Await\<close> returns
  the zero value and what the token's \<^verbatim>\<open>Err()\<close> returns. \<^verbatim>\<open>Await\<close> only reads the
  promise, so the promise is as it was: its executor can still fulfil or reject it,
  and a waiter whose token has not fired then gets that value or that reason.
\<close>

theorem Await_token_fired_first:
  assumes "ctx_done ctx" and "\<not> done_ch p" and "coherent p"
  shows "Await zero pick ctx p = Some (zero, ctx_err ctx)
     \<and> (\<exists>p'. resolve v p = Inr p'
           \<and> Await zero pick' \<lparr>ctx_done = False, ctx_err = None\<rparr> p' = Some (v, None))
     \<and> (\<exists>p'. reject (Some e) p = Inr p'
           \<and> Await zero pick' \<lparr>ctx_done = False, ctx_err = None\<rparr> p' = Some (zero, Some e))"
proof -
  from assms have pending: "\<not> isSettled p" by (simp add: coherent_def)
  have a: "Await zero pick ctx p = Some (zero, ctx_err ctx)"
    using assms by (simp add: Await_def select_done_def Option_Value_def)
  from pending assms(3) have none: "optionalValue p = None" "reason p = None"
    by (simp_all add: isSettled_def isFulfilled_def isRejected_def)
  have b: "Await zero pick' \<lparr>ctx_done = False, ctx_err = None\<rparr>
             (p\<lparr>optionalValue := Some v, done_ch := True\<rparr>) = Some (v, None)"
    using none by (simp add: Await_def select_done_def Option_Value_def)
  have c: "Await zero pick' \<lparr>ctx_done = False, ctx_err = None\<rparr>
             (p\<lparr>reason := Some e, done_ch := True\<rparr>) = Some (zero, Some e)"
    using none by (simp add: Await_def select_done_def Option_Value_def)
  show ?thesis
    using a b c resolve_pending [OF assms(3) pending, of v]
      reject_pending [OF assms(3) pending, of "Some e"]
    by simp
qed

theorem Await_token_fired_first_witness:
  "ctx_done \<lparr>ctx_done = True, ctx_err = Some ctxCanceled\<rparr>
   \<and> \<not> done_ch (New :: int Promise) \<and> coherent (New :: int Promise)
   \<and> Await 0 PromiseDone \<lparr>ctx_done = True, ctx_err = Some ctxCanceled\<rparr> (New :: int Promise)
       = Some (0, Some ctxCanceled)"
proof -
  have h1: "ctx_done \<lparr>ctx_done = True, ctx_err = Some ctxCanceled\<rparr>" by simp
  have h2: "\<not> done_ch (New :: int Promise)" by (simp add: New_def)
  have h3: "coherent (New :: int Promise)" by (rule coherent_New)
  show ?thesis
    using h1 h2 h3 Await_token_fired_first [OF h1 h2 h3, of 0 PromiseDone 1 PromiseDone errNilReason]
    by simp
qed

text \<open>
  Claim C8, as stated, fails: the promise is fulfilled with 1 before the wait begins,
  the token has fired too, the \<^verbatim>\<open>select\<close> takes the token's case, and \<^verbatim>\<open>Await\<close> returns
  0 and the token's error.
\<close>

theorem Await_settled_and_token_fired:
  "Await (0::int) CtxDone \<lparr>ctx_done = True, ctx_err = Some ctxCanceled\<rparr>
      \<lparr>optionalValue = Some 1, reason = None, done_ch = True\<rparr> = Some (0, Some ctxCanceled)
   \<and> Await (0::int) CtxDone \<lparr>ctx_done = True, ctx_err = Some ctxCanceled\<rparr>
      \<lparr>optionalValue = Some 1, reason = None, done_ch = True\<rparr> \<noteq> Some (1, None)"
  by (simp add: Await_def select_done_def Option_Value_def)

text \<open>
  Claim C8, amended. When the channel of the promise is closed as the wait begins and
  the token has not fired, or the \<^verbatim>\<open>select\<close> takes the promise's case, \<^verbatim>\<open>Await\<close>
  returns the stored value and reason: \<open>(v, nil)\<close> on a promise fulfilled with \<open>v\<close>, the
  zero value and the reason on a rejected one.
\<close>

theorem Await_settled:
  assumes "done_ch p" and "\<not> ctx_done ctx \<or> pick = PromiseDone"
  shows "Await zero pick ctx p
           = Some (case optionalValue p of None \<Rightarrow> zero | Some v \<Rightarrow> v, reason p)
     \<and> (optionalValue p = Some v \<and> reason p = None \<longrightarrow> Await zero pick ctx p = Some (v, None))
     \<and> (optionalValue p = None \<and> reason p = Some e \<longrightarrow> Await zero pick ctx p = Some (zero, Some e))"
  using assms
  by (auto simp add: Await_def select_done_def Option_Value_def split: option.splits)

theorem Await_settled_witness:
  "done_ch \<lparr>optionalValue = Some (1::int), reason = None, done_ch = True\<rparr>
   \<and> \<not> ctx_done \<lparr>ctx_done = False, ctx_err = None\<rparr>
   \<and> Await 0 CtxDone \<lparr>ctx_done = False, ctx_err = None\<rparr>
        \<lparr>optionalValue = Some (1::int), reason = None, done_ch = True\<rparr> = Some (1, None)"
proof -
  have h1: "done_ch \<lparr>optionalValue = Some (1::int), reason = None, done_ch = True\<rparr>" by simp
  have h2: "\<not> ctx_done \<lparr>ctx_done = False, ctx_err = None\<rparr> \<or> CtxDone = PromiseDone" by simp
  show ?thesis
    using h1 h2 Await_settled [OF h1 h2, of 0 1 errNilReason]
    by simp
qed

text \<open>
  Claim C9, as stated, fails: the promise has settled first, fulfilled with 1 (for
  \<^verbatim>\<open>Catch\<close>, rejected), the token has fired after that, and only then is the
  callback registered. Both channels are closed, the \<^verbatim>\<open>select\<close> takes the token's
  case, and \<^verbatim>\<open>Then\<close>, \<^verbatim>\<open>Catch\<close> and \<^verbatim>\<open>Finally\<close> return \<^verbatim>\<open>nil\<close> with the
  caller's state untouched: the matching callback did not run.
\<close>

theorem callbacks_settled_and_token_fired:
  "Then (0::int) CtxDone \<lparr>ctx_done = True, ctx_err = Some ctxCanceled\<rparr> (#)
      \<lparr>optionalValue = Some 1, reason = None, done_ch = True\<rparr> [] = Some ([], None)
   \<and> Catch CtxDone \<lparr>ctx_done = True, ctx_err = Some ctxCanceled\<rparr> (#)
      \<lparr>optionalValue = None :: int option, reason = Some (userError ''boom''), done_ch = True\<rparr> []
        = Some ([], None)
   \<and> Finally CtxDone \<lparr>ctx_done = True, ctx_err = Some ctxCanceled\<rparr> (\<lambda>s. (9::int) # s)
      \<lparr>optionalValue = Some (1::int), reason = None, done_ch = True\<rparr> [] = Some ([], None)
   \<and> Then (0::int) CtxDone \<lparr>ctx_done = True, ctx_err = Some ctxCanceled\<rparr> (#)
      \<lparr>optionalValue = Some 1, reason = None, done_ch = True\<rparr> []
        \<noteq> Some ([1], Some \<lparr>optionalValue = Some 1, reason = None, done_ch = True\<rparr>)"
  by (simp add: Then_def Catch_def Finally_def select_done_def)

text \<open>
  Claim C9, amended. When the token has fired and the promise is not settled,
  \<^verbatim>\<open>Then\<close>, \<^verbatim>\<open>Catch\<close> and \<^verbatim>\<open>Finally\<close> return \<^verbatim>\<open>nil\<close>, which is not the
  promise, and the caller's state is untouched: the callback did not run. When the
  promise is settled and the token has not fired, or the \<^verbatim>\<open>select\<close> takes the
  promise's case, each returns the promise it was called on; \<^verbatim>\<open>Then\<close> has run its
  callback on the value if there is one, \<^verbatim>\<open>Catch\<close> on the reason if there is one,
  \<^verbatim>\<open>Finally\<close> in any case, and on the other branch the state is untouched and
  nothing is reported.
\<close>

theorem callbacks_after_wait:
  "(ctx_done ctx \<and> \<not> done_ch p \<longrightarrow>
      Then zero pick ctx onFulfilled p s = Some (s, None)
      \<and> Catch pick ctx onRejected p s = Some (s, None)
      \<and> Finally pick ctx onFinally p s = Some (s, None)
      \<and> None \<noteq> Some p)
   \<and> (done_ch p \<and> (\<not> ctx_done ctx \<or> pick = PromiseDone) \<longrightarrow>
      Then zero pick ctx onFulfilled p s
        = Some (case optionalValue p of None \<Rightarrow> s | Some v \<Rightarrow> onFulfilled v s, Some p)
      \<and> Catch pick ctx onRejected p s
        = Some (case reason p of None \<Rightarrow> s | Some r \<Rightarrow> onRejected r s, Some p)
      \<and> Finally pick ctx onFinally p s = Some (onFinally s, Some p))"
  by (auto simp add: Then_def Catch_def Finally_def select_done_def Option_Value_def
      split: option.splits)

theorem callbacks_after_wait_witness:
  "ctx_done \<lparr>ctx_done = True, ctx_err = Some ctxCanceled\<rparr> \<and> \<not> done_ch (New :: int Promise)
   \<and> Then 0 PromiseDone \<lparr>ctx_done = True, ctx_err = Some ctxCanceled\<rparr> (#) (New :: int Promise) []
        = Some ([], None)
   \<and> done_ch \<lparr>optionalValue = Some (1::int), reason = None, done_ch = True\<rparr>
   \<and> \<not> ctx_done \<lparr>ctx_done = False, ctx_err = None\<rparr>
   \<and> Then 0 CtxDone \<lparr>ctx_done = False, ctx_err = None\<rparr> (#)
        \<lparr>optionalValue = Some (1::int), reason = None, done_ch = True\<rparr> []
        = Some ([1], Some \<lparr>optionalValue = Some 1, reason = None, done_ch = True\<rparr>)
   \<and> Catch CtxDone \<lparr>ctx_done = False, ctx_err = None\<rparr> (\<lambda>r s. (7::int) # s)
        \<lparr>optionalValue = Some (1::int), reason = None, done_ch = True\<rparr> []
        = Some ([], Some \<lparr>optionalValue = Some 1, reason = None, done_ch = True\<rparr>)
   \<and> Finally CtxDone \<lparr>ctx_done = False, ctx_err = None\<rparr> (\<lambda>s. (9::int) # s)
        \<lparr>optionalValue = Some (1::int), reason = None, done_ch = True\<rparr> []
        = Some ([9], Some \<lparr>optionalValue = Some 1, reason = None, done_ch = True\<rparr>)"
  using callbacks_after_wait
      [of "\<lparr>ctx_done = True, ctx_err = Some ctxCanceled\<rparr>" "New :: int Promise" 0 PromiseDone
          "(#)" "[]" "\<lambda>r s. (7::int) # s" "\<lambda>s. (9::int) # s"]
    callbacks_after_wait
      [of "\<lparr>ctx_done = False, ctx_err = None\<rparr>"
          "\<lparr>optionalValue = Some (1::int), reason = None, done_ch = True\<rparr>" 0 CtxDone
          "(#)" "[]" "\<lambda>r s. (7::int) # s" "\<lambda>s. (9::int) # s"]
  by (simp add: New_def)

section \<open>The fan-in\<close>

lemma fan_in_init_inv: "fan_in_inv n (fan_in_init zero n)"
  by (simp add: fan_in_inv_def fan_in_init_def coherent_New)
     (simp add: New_def isFulfilled_def)

lemma card_exited_less: "E \<subseteq> {..<n} \<Longrightarrow> i < n \<Longrightarrow> i \<notin> E \<Longrightarrow> card E < n"
proof -
  assume a: "E \<subseteq> {..<n}" "i < n" "i \<notin> E"
  then have "E \<subset> {..<n}" by auto
  then have "card E < card {..<n}" by (intro psubset_card_mono) simp_all
  then show ?thesis by simp
qed

lemma goroutine_exit_ok:
  assumes "exited st \<subseteq> {..<n}" "wg st = int n - int (card (exited st))" "i < n" "i \<notin> exited st"
  shows "goroutine_exit i st = Inr (st\<lparr>wg := wg st - 1, exited := insert i (exited st)\<rparr>)"
proof -
  have "card (exited st) < n" using assms card_exited_less by blast
  then have "\<not> wg st - 1 < 0" using assms(2) by simp
  then show ?thesis by (simp add: goroutine_exit_def wg_Done_def)
qed

lemma not_exited_pending_join:
  "fan_in_inv n st \<Longrightarrow> i < n \<Longrightarrow> i \<notin> exited st \<Longrightarrow> \<not> joined st \<and> \<not> isFulfilled (parent st)"
  by (auto simp add: fan_in_inv_def)

text \<open>A goroutine that writes its slot and returns.\<close>

lemma exit_after_write:
  assumes inv: "fan_in_inv n st" and i: "i < n" "i \<notin> exited st" and len: "length rs = n"
  shows "goroutine_exit i (st\<lparr>results := rs\<rparr>)
           = Inr (st\<lparr>results := rs, wg := wg st - 1, exited := insert i (exited st)\<rparr>)
         \<and> fan_in_inv n (st\<lparr>results := rs, wg := wg st - 1, exited := insert i (exited st)\<rparr>)"
proof -
  from inv have sub: "exited st \<subseteq> {..<n}" and w: "wg st = int n - int (card (exited st))"
    by (simp_all add: fan_in_inv_def)
  have fin: "finite (exited st)" using sub finite_subset by blast
  from not_exited_pending_join [OF inv i] have nj: "\<not> joined st" "\<not> isFulfilled (parent st)"
    by simp_all
  have e: "goroutine_exit i (st\<lparr>results := rs\<rparr>)
           = Inr (st\<lparr>results := rs, wg := wg st - 1, exited := insert i (exited st)\<rparr>)"
    using goroutine_exit_ok [of "st\<lparr>results := rs\<rparr>" n i] sub w i by simp
  have "fan_in_inv n (st\<lparr>results := rs, wg := wg st - 1, exited := insert i (exited st)\<rparr>)"
    using inv i fin len nj by (simp add: fan_in_inv_def)
  with e show ?thesis by simp
qed

text \<open>A goroutine that rejects the parent and returns.\<close>

lemma exit_after_reject:
  assumes inv: "fan_in_inv n st" and i: "i < n" "i \<notin> exited st"
  shows "\<exists>p'. reject err (parent st) = Inr p' \<and> coherent p' \<and> \<not> isFulfilled p'
         \<and> (isSettled (parent st) \<longrightarrow> p' = parent st)
         \<and> (\<not> isSettled (parent st) \<longrightarrow>
              p' = (parent st)\<lparr>reason := Some (case err of None \<Rightarrow> errNilReason | Some e \<Rightarrow> e),
                                done_ch := True\<rparr>)
         \<and> goroutine_exit i (st\<lparr>parent := p'\<rparr>)
           = Inr (st\<lparr>parent := p', wg := wg st - 1, exited := insert i (exited st)\<rparr>)
         \<and> fan_in_inv n (st\<lparr>parent := p', wg := wg st - 1, exited := insert i (exited st)\<rparr>)"
proof -
  from inv have sub: "exited st \<subseteq> {..<n}" and w: "wg st = int n - int (card (exited st))"
    and co: "coherent (parent st)"
    by (simp_all add: fan_in_inv_def)
  have fin: "finite (exited st)" using sub finite_subset by blast
  from not_exited_pending_join [OF inv i] have nj: "\<not> joined st" "\<not> isFulfilled (parent st)"
    by simp_all
  define p' where "p' = (if isSettled (parent st) then parent st
      else (parent st)\<lparr>reason := Some (case err of None \<Rightarrow> errNilReason | Some e \<Rightarrow> e),
                                done_ch := True\<rparr>)"
  have r: "reject err (parent st) = Inr p'"
    using co by (simp add: p'_def reject_settled reject_pending)
  from coherent_reject [OF co, of err] r have cp: "coherent p'" by simp
  have nf: "\<not> isFulfilled p'" using nj by (simp add: p'_def isFulfilled_def)
  have e: "goroutine_exit i (st\<lparr>parent := p'\<rparr>)
           = Inr (st\<lparr>parent := p', wg := wg st - 1, exited := insert i (exited st)\<rparr>)"
    using goroutine_exit_ok [of "st\<lparr>parent := p'\<rparr>" n i] sub w i by simp
  have "fan_in_inv n (st\<lparr>parent := p', wg := wg st - 1, exited := insert i (exited st)\<rparr>)"
    using inv i fin nj cp nf by (simp add: fan_in_inv_def)
  with r cp nf e show ?thesis by (auto simp add: p'_def)
qed

lemma join_resolve_blocked: "joined st \<or> wg st \<noteq> 0 \<Longrightarrow> join_resolve st = Inr st"
  by (simp add: join_resolve_def)

lemma all_exited:
  assumes "fan_in_inv n st" "wg st = 0"
  shows "exited st = {..<n}"
proof -
  from assms have sub: "exited st \<subseteq> {..<n}" and "wg st = int n - int (card (exited st))"
    unfolding fan_in_inv_def by blast+
  with assms(2) have c: "card (exited st) = n" by simp
  have "card (exited st) = card {..<n}" using c by simp
  with sub show ?thesis by (intro card_subset_eq) simp_all
qed

lemma join_resolve_runs:
  assumes inv: "fan_in_inv n st" and nj: "\<not> joined st" and w: "wg st = 0"
  shows "\<exists>p'. resolve (results st) (parent st) = Inr p'
          \<and> (isSettled (parent st) \<longrightarrow> p' = parent st)
          \<and> (\<not> isSettled (parent st) \<longrightarrow>
               p' = (parent st)\<lparr>optionalValue := Some (results st), done_ch := True\<rparr>)
          \<and> join_resolve st = Inr (st\<lparr>parent := p', joined := True\<rparr>)
          \<and> fan_in_inv n (st\<lparr>parent := p', joined := True\<rparr>)"
proof -
  from inv have co: "coherent (parent st)" by (simp add: fan_in_inv_def)
  from inv nj have nf: "\<not> isFulfilled (parent st)" by (auto simp add: fan_in_inv_def)
  define p' where "p' = (if isSettled (parent st) then parent st
      else (parent st)\<lparr>optionalValue := Some (results st), done_ch := True\<rparr>)"
  have r: "resolve (results st) (parent st) = Inr p'"
    using co by (simp add: p'_def resolve_settled resolve_pending)
  from coherent_resolve [OF co, of "results st"] r have cp: "coherent p'" by simp
  have j: "join_resolve st = Inr (st\<lparr>parent := p', joined := True\<rparr>)"
    using nj w r by (simp add: join_resolve_def)
  have f: "isFulfilled p' \<longrightarrow> optionalValue p' = Some (results st)"
    using nf by (simp add: p'_def)
  have ps: "isSettled p'"
    by (simp add: p'_def isSettled_def isFulfilled_def)
  have "fan_in_inv n (st\<lparr>parent := p', joined := True\<rparr>)"
    using inv cp f ps all_exited [OF inv w] by (simp add: fan_in_inv_def)
  with r j show ?thesis by (auto simp add: p'_def)
qed

lemma join_resolve_inv:
  assumes "fan_in_inv n st"
  shows "\<exists>st'. join_resolve st = Inr st' \<and> fan_in_inv n st'"
proof (cases "joined st \<or> wg st \<noteq> 0")
  case True
  with assms show ?thesis by (simp add: join_resolve_blocked)
next
  case False
  with join_resolve_runs [OF assms] show ?thesis by auto
qed

lemma All_goroutine_idle:
  "length promises \<le> i \<or> i \<in> exited st \<or> Await zero pick ctx (promises ! i) = None
   \<Longrightarrow> All_goroutine zero ctx promises i pick st = Inr st"
  by (auto simp add: All_goroutine_def)

lemma All_goroutine_value:
  assumes "fan_in_inv (length promises) st" "i < length promises" "i \<notin> exited st"
    and "Await zero pick ctx (promises ! i) = Some (v, None)"
  shows "All_goroutine zero ctx promises i pick st
           = Inr (st\<lparr>results := (results st)[i := v], wg := wg st - 1,
                     exited := insert i (exited st)\<rparr>)
         \<and> fan_in_inv (length promises)
             (st\<lparr>results := (results st)[i := v], wg := wg st - 1,
                     exited := insert i (exited st)\<rparr>)"
proof -
  from assms(1) have "length ((results st)[i := v]) = length promises"
    by (simp add: fan_in_inv_def)
  from exit_after_write [OF assms(1-3) this] assms(2-4)
  show ?thesis by (simp add: All_goroutine_def)
qed

lemma All_goroutine_error:
  assumes "fan_in_inv (length promises) st" "i < length promises" "i \<notin> exited st"
    and "Await zero pick ctx (promises ! i) = Some (v, Some e)"
  shows "\<exists>p'. All_goroutine zero ctx promises i pick st
           = Inr (st\<lparr>parent := p', wg := wg st - 1, exited := insert i (exited st)\<rparr>)
         \<and> fan_in_inv (length promises)
             (st\<lparr>parent := p', wg := wg st - 1, exited := insert i (exited st)\<rparr>)
         \<and> (isSettled (parent st) \<longrightarrow> p' = parent st)
         \<and> (\<not> isSettled (parent st) \<longrightarrow> p' = (parent st)\<lparr>reason := Some e, done_ch := True\<rparr>)"
proof -
  from exit_after_reject [OF assms(1-3), of "Some e"]
  obtain p' where p: "reject (Some e) (parent st) = Inr p'"
    "isSettled (parent st) \<longrightarrow> p' = parent st"
    "\<not> isSettled (parent st) \<longrightarrow> p' = (parent st)\<lparr>reason := Some e, done_ch := True\<rparr>"
    "goroutine_exit i (st\<lparr>parent := p'\<rparr>)
           = Inr (st\<lparr>parent := p', wg := wg st - 1, exited := insert i (exited st)\<rparr>)"
    "fan_in_inv (length promises) (st\<lparr>parent := p', wg := wg st - 1, exited := insert i (exited st)\<rparr>)"
    by auto
  have "All_goroutine zero ctx promises i pick st
           = Inr (st\<lparr>parent := p', wg := wg st - 1, exited := insert i (exited st)\<rparr>)"
    using assms(2-4) p(1) p(4) by (simp add: All_goroutine_def)
  with p show ?thesis by blast
qed

text \<open>What one scheduled event of \<^verbatim>\<open>All\<close> does to a state of the fan-in.\<close>

lemma All_step_facts:
  assumes inv: "fan_in_inv (length promises) st"
  shows "\<exists>st'. All_step zero ctx promises ev st = Inr st'
     \<and> fan_in_inv (length promises) st'
     \<and> exited st \<subseteq> exited st'
     \<and> (isSettled (parent st) \<longrightarrow> parent st' = parent st)
     \<and> (\<forall>i pick. ev = Child i pick \<and> i < length promises
           \<and> Await zero pick ctx (promises ! i) \<noteq> None \<longrightarrow> i \<in> exited st')
     \<and> (\<forall>j. j \<in> exited st' \<and> j \<notin> exited st \<longrightarrow> (\<exists>pick. ev = Child j pick))
     \<and> (\<forall>j. j \<in> exited st \<longrightarrow> results st' ! j = results st ! j)
     \<and> (\<forall>j. j \<in> exited st' \<and> j \<notin> exited st \<longrightarrow>
           (\<exists>pick v err. ev = Child j pick \<and> Await zero pick ctx (promises ! j) = Some (v, err)
              \<and> (err = None \<longrightarrow> results st' ! j = v)
              \<and> (err \<noteq> None \<longrightarrow> isRejected (parent st'))))
     \<and> (isRejected (parent st') \<and> \<not> isRejected (parent st) \<longrightarrow>
           (\<exists>i pick v e. ev = Child i pick \<and> i < length promises
              \<and> Await zero pick ctx (promises ! i) = Some (v, Some e)))"
proof (cases ev)
  case Join
  show ?thesis
  proof (cases "joined st \<or> wg st \<noteq> 0")
    case True
    with Join inv show ?thesis by (simp add: join_resolve_blocked)
  next
    case False
    with join_resolve_runs [OF inv]
    obtain p' where p: "isSettled (parent st) \<longrightarrow> p' = parent st"
      "\<not> isSettled (parent st) \<longrightarrow>
               p' = (parent st)\<lparr>optionalValue := Some (results st), done_ch := True\<rparr>"
      "join_resolve st = Inr (st\<lparr>parent := p', joined := True\<rparr>)"
      "fan_in_inv (length promises) (st\<lparr>parent := p', joined := True\<rparr>)"
      by auto
    have "isRejected p' \<longrightarrow> isRejected (parent st)"
      using p(1,2) by (cases "isSettled (parent st)") (simp_all add: isRejected_def)
    with Join p show ?thesis by simp
  qed
next
  case (Child i pick)
  show ?thesis
  proof (cases "length promises \<le> i \<or> i \<in> exited st \<or> Await zero pick ctx (promises ! i) = None")
    case True
    then have "All_goroutine zero ctx promises i pick st = Inr st"
      by (rule All_goroutine_idle)
    with Child inv True show ?thesis by auto
  next
    case False
    then have i: "i < length promises" "i \<notin> exited st" by simp_all
    from False obtain v err where a: "Await zero pick ctx (promises ! i) = Some (v, err)"
      by auto
    from inv i have len: "i < length (results st)" by (simp add: fan_in_inv_def)
    show ?thesis
    proof (cases err)
      case None
      from All_goroutine_value [OF inv i a [unfolded None]]
      show ?thesis using Child a None i len by (auto simp add: nth_list_update)
    next
      case (Some e)
      from All_goroutine_error [OF inv i a [unfolded Some]]
      obtain p' where p: "All_goroutine zero ctx promises i pick st
           = Inr (st\<lparr>parent := p', wg := wg st - 1, exited := insert i (exited st)\<rparr>)"
         "fan_in_inv (length promises)
             (st\<lparr>parent := p', wg := wg st - 1, exited := insert i (exited st)\<rparr>)"
         "isSettled (parent st) \<longrightarrow> p' = parent st"
         "\<not> isSettled (parent st) \<longrightarrow> p' = (parent st)\<lparr>reason := Some e, done_ch := True\<rparr>"
        by blast
      have rej: "isRejected p' \<or> isSettled (parent st)"
        using p(4) by (cases "isSettled (parent st)") (simp_all add: isRejected_def)
      from not_exited_pending_join [OF inv i] have "\<not> isFulfilled (parent st)" by simp
      with rej p(3) have "isRejected p'" by (auto simp add: isSettled_def)
      with Child a Some i p show ?thesis by auto
    qed
  qed
qed

lemma All_step_E:
  assumes "fan_in_inv (length promises) st"
  obtains st' where "All_step zero ctx promises ev st = Inr st'"
     and "fan_in_inv (length promises) st'"
     and "exited st \<subseteq> exited st'"
     and "isSettled (parent st) \<longrightarrow> parent st' = parent st"
     and "\<forall>i pick. ev = Child i pick \<and> i < length promises
           \<and> Await zero pick ctx (promises ! i) \<noteq> None \<longrightarrow> i \<in> exited st'"
     and "\<forall>j. j \<in> exited st' \<and> j \<notin> exited st \<longrightarrow> (\<exists>pick. ev = Child j pick)"
     and "\<forall>j. j \<in> exited st \<longrightarrow> results st' ! j = results st ! j"
     and "\<forall>j. j \<in> exited st' \<and> j \<notin> exited st \<longrightarrow>
           (\<exists>pick v err. ev = Child j pick \<and> Await zero pick ctx (promises ! j) = Some (v, err)
              \<and> (err = None \<longrightarrow> results st' ! j = v)
              \<and> (err \<noteq> None \<longrightarrow> isRejected (parent st')))"
     and "isRejected (parent st') \<and> \<not> isRejected (parent st) \<longrightarrow>
           (\<exists>i pick v e. ev = Child i pick \<and> i < length promises
              \<and> Await zero pick ctx (promises ! i) = Some (v, Some e))"
proof -
  from All_step_facts [OF assms, of zero ctx ev]
  obtain st' where "All_step zero ctx promises ev st = Inr st'
     \<and> fan_in_inv (length promises) st'
     \<and> exited st \<subseteq> exited st'
     \<and> (isSettled (parent st) \<longrightarrow> parent st' = parent st)
     \<and> (\<forall>i pick. ev = Child i pick \<and> i < length promises
           \<and> Await zero pick ctx (promises ! i) \<noteq> None \<longrightarrow> i \<in> exited st')
     \<and> (\<forall>j. j \<in> exited st' \<and> j \<notin> exited st \<longrightarrow> (\<exists>pick. ev = Child j pick))
     \<and> (\<forall>j. j \<in> exited st \<longrightarrow> results st' ! j = results st ! j)
     \<and> (\<forall>j. j \<in> exited st' \<and> j \<notin> exited st \<longrightarrow>
           (\<exists>pick v err. ev = Child j pick \<and> Await zero pick ctx (promises ! j) = Some (v, err)
              \<and> (err = None \<longrightarrow> results st' ! j = v)
              \<and> (err \<noteq> None \<longrightarrow> isRejected (parent st'))))
     \<and> (isRejected (parent st') \<and> \<not> isRejected (parent st) \<longrightarrow>
           (\<exists>i pick v e. ev = Child i pick \<and> i < length promises
              \<and> Await zero pick ctx (promises ! i) = Some (v, Some e)))" ..
  then show thesis
    by (elim conjE) (rule that)
qed

lemma All_step_inv:
  assumes "fan_in_inv (length promises) st"
  shows "\<exists>st'. All_step zero ctx promises ev st = Inr st' \<and> fan_in_inv (length promises) st'"
  by (rule All_step_E [OF assms, of zero ctx ev]) simp

lemma All_step_exited_mono:
  assumes "fan_in_inv (length promises) st" "All_step zero ctx promises ev st = Inr st1"
  shows "exited st \<subseteq> exited st1"
  by (rule All_step_E [OF assms(1), of zero ctx ev]) (use assms(2) in simp)

lemma All_step_settled:
  assumes "fan_in_inv (length promises) st" "All_step zero ctx promises ev st = Inr st1"
    "isSettled (parent st)"
  shows "parent st1 = parent st"
  by (rule All_step_E [OF assms(1), of zero ctx ev]) (use assms(2,3) in simp)

lemma All_step_scheduled:
  assumes "fan_in_inv (length promises) st"
    "All_step zero ctx promises (Child i pick) st = Inr st1"
    "i < length promises" "Await zero pick ctx (promises ! i) \<noteq> None"
  shows "i \<in> exited st1"
  by (rule All_step_E [OF assms(1), of zero ctx "Child i pick"]) (use assms(2-4) in simp)

lemma All_step_exited_scheduled:
  assumes "fan_in_inv (length promises) st" "All_step zero ctx promises ev st = Inr st1"
    "j \<in> exited st1" "j \<notin> exited st"
  shows "\<exists>pick. ev = Child j pick"
  by (rule All_step_E [OF assms(1), of zero ctx ev]) (use assms(2-4) in simp)

lemma All_step_results_kept:
  assumes "fan_in_inv (length promises) st" "All_step zero ctx promises ev st = Inr st1"
    "j \<in> exited st"
  shows "results st1 ! j = results st ! j"
  by (rule All_step_E [OF assms(1), of zero ctx ev]) (use assms(2,3) in simp)

lemma All_step_outcome:
  assumes "fan_in_inv (length promises) st" "All_step zero ctx promises ev st = Inr st1"
    "j \<in> exited st1" "j \<notin> exited st"
  shows "\<exists>pick v err. ev = Child j pick \<and> Await zero pick ctx (promises ! j) = Some (v, err)
              \<and> (err = None \<longrightarrow> results st1 ! j = v)
              \<and> (err \<noteq> None \<longrightarrow> isRejected (parent st1))"
  by (rule All_step_E [OF assms(1), of zero ctx ev]) (use assms(2-4) in simp)

lemma All_step_rejected:
  assumes "fan_in_inv (length promises) st" "All_step zero ctx promises ev st = Inr st1"
    "isRejected (parent st1)" "\<not> isRejected (parent st)"
  shows "\<exists>i pick v e. ev = Child i pick \<and> i < length promises
              \<and> Await zero pick ctx (promises ! i) = Some (v, Some e)"
  by (rule All_step_E [OF assms(1), of zero ctx ev]) (use assms(2-4) in simp)

lemma All_run_append:
  "All_run zero ctx promises (xs @ ys) st =
     (case All_run zero ctx promises xs st of
        Inl e \<Rightarrow> Inl e
      | Inr st' \<Rightarrow> All_run zero ctx promises ys st')"
  by (induction xs arbitrary: st) (simp_all split: sum.splits)

lemma All_run_Cons_Inr:
  assumes "fan_in_inv (length promises) st"
    and "All_run zero ctx promises (ev # evs) st = Inr st'"
  obtains st1 where "All_step zero ctx promises ev st = Inr st1"
    and "fan_in_inv (length promises) st1"
    and "All_run zero ctx promises evs st1 = Inr st'"
proof -
  from All_step_inv [OF assms(1), of zero ctx ev]
  obtain st1 where s: "All_step zero ctx promises ev st = Inr st1"
    "fan_in_inv (length promises) st1" by blast
  with assms(2) have "All_run zero ctx promises evs st1 = Inr st'" by simp
  with s that show thesis by blast
qed

lemma All_run_inv:
  "fan_in_inv (length promises) st \<Longrightarrow>
     \<exists>st'. All_run zero ctx promises evs st = Inr st' \<and> fan_in_inv (length promises) st'"
proof (induction evs arbitrary: st)
  case Nil
  then show ?case by simp
next
  case (Cons ev evs)
  from All_step_inv [OF Cons.prems, of zero ctx ev]
  obtain st1 where s: "All_step zero ctx promises ev st = Inr st1"
    "fan_in_inv (length promises) st1" by blast
  from Cons.IH [OF s(2)] s(1) show ?case by simp
qed

lemma All_run_exited_mono:
  "fan_in_inv (length promises) st \<Longrightarrow> All_run zero ctx promises evs st = Inr st'
     \<Longrightarrow> exited st \<subseteq> exited st'"
proof (induction evs arbitrary: st)
  case Nil
  then show ?case by simp
next
  case (Cons ev evs)
  from Cons.prems obtain st1 where s: "All_step zero ctx promises ev st = Inr st1"
    "fan_in_inv (length promises) st1" "All_run zero ctx promises evs st1 = Inr st'"
    by (rule All_run_Cons_Inr)
  from All_step_exited_mono [OF Cons.prems(1) s(1)] Cons.IH [OF s(2,3)]
  show ?case by blast
qed

text \<open>Once the parent is settled no event changes it.\<close>

lemma All_run_settled:
  "fan_in_inv (length promises) st \<Longrightarrow> All_run zero ctx promises evs st = Inr st'
     \<Longrightarrow> isSettled (parent st) \<Longrightarrow> parent st' = parent st"
proof (induction evs arbitrary: st)
  case Nil
  then show ?case by simp
next
  case (Cons ev evs)
  from Cons.prems(1,2) obtain st1 where s: "All_step zero ctx promises ev st = Inr st1"
    "fan_in_inv (length promises) st1" "All_run zero ctx promises evs st1 = Inr st'"
    by (rule All_run_Cons_Inr)
  from All_step_settled [OF Cons.prems(1) s(1) Cons.prems(3)]
  have eq: "parent st1 = parent st" .
  with Cons.prems(3) have "isSettled (parent st1)" by simp
  from Cons.IH [OF s(2,3) this] eq show ?case by simp
qed

text \<open>A goroutine that was scheduled with a channel of its \<^verbatim>\<open>select\<close> closed has returned.\<close>

lemma All_run_scheduled:
  "fan_in_inv (length promises) st \<Longrightarrow> All_run zero ctx promises evs st = Inr st'
     \<Longrightarrow> Child i pick \<in> set evs \<Longrightarrow> i < length promises
     \<Longrightarrow> Await zero pick ctx (promises ! i) \<noteq> None \<Longrightarrow> i \<in> exited st'"
proof (induction evs arbitrary: st)
  case Nil
  then show ?case by simp
next
  case (Cons ev evs)
  from Cons.prems(1,2) obtain st1 where s: "All_step zero ctx promises ev st = Inr st1"
    "fan_in_inv (length promises) st1" "All_run zero ctx promises evs st1 = Inr st'"
    by (rule All_run_Cons_Inr)
  show ?case
  proof (cases "ev = Child i pick")
    case True
    from All_step_scheduled [OF Cons.prems(1) s(1) [unfolded True] Cons.prems(4,5)]
    have "i \<in> exited st1" .
    with All_run_exited_mono [OF s(2,3)] show ?thesis by blast
  next
    case False
    with Cons.prems(3) have "Child i pick \<in> set evs" by simp
    from Cons.IH [OF s(2,3) this Cons.prems(4,5)] show ?thesis .
  qed
qed

text \<open>A goroutine returns only when it is scheduled.\<close>

lemma All_run_exited_scheduled:
  "fan_in_inv (length promises) st \<Longrightarrow> All_run zero ctx promises evs st = Inr st'
     \<Longrightarrow> j \<in> exited st' \<Longrightarrow> j \<notin> exited st \<Longrightarrow> \<exists>pick. Child j pick \<in> set evs"
proof (induction evs arbitrary: st)
  case Nil
  then show ?case by simp
next
  case (Cons ev evs)
  from Cons.prems(1,2) obtain st1 where s: "All_step zero ctx promises ev st = Inr st1"
    "fan_in_inv (length promises) st1" "All_run zero ctx promises evs st1 = Inr st'"
    by (rule All_run_Cons_Inr)
  show ?case
  proof (cases "j \<in> exited st1")
    case True
    from All_step_exited_scheduled [OF Cons.prems(1) s(1) True Cons.prems(4)]
    show ?thesis by auto
  next
    case False
    from Cons.IH [OF s(2,3) Cons.prems(3) False] show ?thesis by auto
  qed
qed

text \<open>The parent is rejected only by a goroutine whose wait returned an error.\<close>

lemma All_run_rejected:
  "fan_in_inv (length promises) st \<Longrightarrow> All_run zero ctx promises evs st = Inr st'
     \<Longrightarrow> isRejected (parent st') \<Longrightarrow> \<not> isRejected (parent st)
     \<Longrightarrow> \<exists>i pick v e. Child i pick \<in> set evs \<and> i < length promises
              \<and> Await zero pick ctx (promises ! i) = Some (v, Some e)"
proof (induction evs arbitrary: st)
  case Nil
  then show ?case by simp
next
  case (Cons ev evs)
  from Cons.prems(1,2) obtain st1 where s: "All_step zero ctx promises ev st = Inr st1"
    "fan_in_inv (length promises) st1" "All_run zero ctx promises evs st1 = Inr st'"
    by (rule All_run_Cons_Inr)
  show ?case
  proof (cases "isRejected (parent st1)")
    case True
    from All_step_rejected [OF Cons.prems(1) s(1) True Cons.prems(4)]
    show ?thesis by auto
  next
    case False
    from Cons.IH [OF s(2,3) Cons.prems(3) False] show ?thesis by auto
  qed
qed

text \<open>The slot of a goroutine that has returned is not written again.\<close>

lemma All_run_results_kept:
  "fan_in_inv (length promises) st \<Longrightarrow> All_run zero ctx promises evs st = Inr st'
     \<Longrightarrow> j \<in> exited st \<Longrightarrow> results st' ! j = results st ! j"
proof (induction evs arbitrary: st)
  case Nil
  then show ?case by simp
next
  case (Cons ev evs)
  from Cons.prems(1,2) obtain st1 where s: "All_step zero ctx promises ev st = Inr st1"
    "fan_in_inv (length promises) st1" "All_run zero ctx promises evs st1 = Inr st'"
    by (rule All_run_Cons_Inr)
  from All_step_results_kept [OF Cons.prems(1) s(1) Cons.prems(3)]
  have a: "results st1 ! j = results st ! j" .
  from All_step_exited_mono [OF Cons.prems(1) s(1)] Cons.prems(3) have "j \<in> exited st1" by blast
  from Cons.IH [OF s(2,3) this] a show ?case by simp
qed

text \<open>
  What a goroutine that has returned has done: its wait returned, and it stored the
  value in its slot or rejected the parent.
\<close>

lemma All_run_outcome:
  "fan_in_inv (length promises) st \<Longrightarrow> All_run zero ctx promises evs st = Inr st'
     \<Longrightarrow> j \<in> exited st' \<Longrightarrow> j \<notin> exited st
     \<Longrightarrow> \<exists>pick v err. Child j pick \<in> set evs
            \<and> Await zero pick ctx (promises ! j) = Some (v, err)
            \<and> (err = None \<longrightarrow> results st' ! j = v)
            \<and> (err \<noteq> None \<longrightarrow> isRejected (parent st'))"
proof (induction evs arbitrary: st)
  case Nil
  then show ?case by simp
next
  case (Cons ev evs)
  from Cons.prems(1,2) obtain st1 where s: "All_step zero ctx promises ev st = Inr st1"
    "fan_in_inv (length promises) st1" "All_run zero ctx promises evs st1 = Inr st'"
    by (rule All_run_Cons_Inr)
  show ?case
  proof (cases "j \<in> exited st1")
    case True
    from All_step_outcome [OF Cons.prems(1) s(1) True Cons.prems(4)]
    obtain pick v err where o: "ev = Child j pick"
      "Await zero pick ctx (promises ! j) = Some (v, err)"
      "err = None \<longrightarrow> results st1 ! j = v"
      "err \<noteq> None \<longrightarrow> isRejected (parent st1)" by blast
    from All_run_results_kept [OF s(2,3) True] o(3)
    have r: "err = None \<longrightarrow> results st' ! j = v" by simp
    have "err \<noteq> None \<longrightarrow> isRejected (parent st')"
    proof
      assume "err \<noteq> None"
      with o(4) have rj: "isRejected (parent st1)" by simp
      then have "isSettled (parent st1)" by (simp add: isSettled_def)
      from All_run_settled [OF s(2,3) this] rj show "isRejected (parent st')" by simp
    qed
    with o(1,2) r have "Child j pick \<in> set (ev # evs)
            \<and> Await zero pick ctx (promises ! j) = Some (v, err)
            \<and> (err = None \<longrightarrow> results st' ! j = v)
            \<and> (err \<noteq> None \<longrightarrow> isRejected (parent st'))" by simp
    then show ?thesis by blast
  next
    case False
    from Cons.IH [OF s(2,3) Cons.prems(3) False]
    obtain pick v err where "Child j pick \<in> set evs"
            "Await zero pick ctx (promises ! j) = Some (v, err)"
            "err = None \<longrightarrow> results st' ! j = v"
            "err \<noteq> None \<longrightarrow> isRejected (parent st')" by blast
    then have "Child j pick \<in> set (ev # evs)
            \<and> Await zero pick ctx (promises ! j) = Some (v, err)
            \<and> (err = None \<longrightarrow> results st' ! j = v)
            \<and> (err \<noteq> None \<longrightarrow> isRejected (parent st'))" by simp
    then show ?thesis by blast
  qed
qed

lemma Promise_eqI:
  "optionalValue p = a \<Longrightarrow> reason p = b \<Longrightarrow> done_ch p = c
     \<Longrightarrow> (p :: 'a Promise) = \<lparr>optionalValue = a, reason = b, done_ch = c\<rparr>"
  by (cases p) simp

lemma All_promises_inv:
  "\<exists>st. All_promises zero ctx promises evs = Inr st \<and> fan_in_inv (length promises) st"
  unfolding All_promises_def by (rule All_run_inv) (rule fan_in_init_inv)

lemma fan_in_init_fields:
  "exited (fan_in_init zero n) = {}" "\<not> isRejected (parent (fan_in_init zero n))"
  "\<not> isSettled (parent (fan_in_init zero n))"
  by (simp_all add: fan_in_init_def New_def isRejected_def isSettled_def isFulfilled_def)

text \<open>The executor's last step when every goroutine has returned and none has rejected.\<close>

lemma join_resolve_all_values:
  assumes inv: "fan_in_inv n st" and ex: "exited st = {..<n}" and nr: "\<not> isRejected (parent st)"
  shows "\<exists>st'. join_resolve st = Inr st'
     \<and> parent st' = \<lparr>optionalValue = Some (results st), reason = None, done_ch = True\<rparr>"
proof -
  from inv ex have w: "wg st = 0" by (simp add: fan_in_inv_def)
  from nr have r: "reason (parent st) = None" by (simp add: isRejected_def)
  show ?thesis
  proof (cases "joined st")
    case True
    with inv have s: "isSettled (parent st)" and co: "coherent (parent st)"
      by (simp_all add: fan_in_inv_def)
    with nr have f: "isFulfilled (parent st)" by (simp add: isSettled_def)
    with inv have v: "optionalValue (parent st) = Some (results st)" by (simp add: fan_in_inv_def)
    from co s have d: "done_ch (parent st)" by (simp add: coherent_def)
    from True have "join_resolve st = Inr st" by (simp add: join_resolve_blocked)
    with Promise_eqI [OF v r, of True] d show ?thesis by simp
  next
    case False
    with inv have nf: "\<not> isFulfilled (parent st)" by (auto simp add: fan_in_inv_def)
    with nr have ns: "\<not> isSettled (parent st)" by (simp add: isSettled_def)
    from join_resolve_runs [OF inv False w] ns
    have "join_resolve st = Inr (st\<lparr>parent := (parent st)\<lparr>optionalValue := Some (results st), done_ch := True\<rparr>,
             joined := True\<rparr>)" by auto
    moreover have "(parent st)\<lparr>optionalValue := Some (results st), done_ch := True\<rparr>
       = \<lparr>optionalValue = Some (results st), reason = None, done_ch = True\<rparr>"
      using r by (intro Promise_eqI) simp_all
    ultimately show ?thesis by simp
  qed
qed

lemma All_values:
  assumes len: "length vs = length promises"
    and ful: "\<forall>i<length promises.
        promises ! i = \<lparr>optionalValue = Some (vs ! i), reason = None, done_ch = True\<rparr>"
    and tok: "\<not> ctx_done ctx \<or> (\<forall>i pick. Child i pick \<in> set evs \<longrightarrow> pick = PromiseDone)"
    and sch: "\<forall>i<length promises. \<exists>pick. Child i pick \<in> set evs"
  shows "\<exists>st. All_promises zero ctx promises (evs @ [Join]) = Inr st
     \<and> parent st = \<lparr>optionalValue = Some vs, reason = None, done_ch = True\<rparr>"
proof -
  let ?n = "length promises"
  let ?init = "fan_in_init zero ?n"
  have inv0: "fan_in_inv ?n ?init" by (rule fan_in_init_inv)
  from All_run_inv [OF inv0, of zero ctx evs]
  obtain st1 where run: "All_run zero ctx promises evs ?init = Inr st1"
    and inv1: "fan_in_inv ?n st1" by blast
  have wait: "Await zero pick ctx (promises ! i) = Some (vs ! i, None)"
    if "Child i pick \<in> set evs" "i < ?n" for i pick
  proof -
    from ful that(2)
    have p: "promises ! i = \<lparr>optionalValue = Some (vs ! i), reason = None, done_ch = True\<rparr>"
      by simp
    from tok that(1) have "\<not> ctx_done ctx \<or> pick = PromiseDone" by blast
    then show ?thesis
      unfolding p by (auto simp add: Await_def select_done_def Option_Value_def)
  qed
  have ex: "exited st1 = {..<?n}"
  proof
    from inv1 show "exited st1 \<subseteq> {..<?n}" by (simp add: fan_in_inv_def)
    show "{..<?n} \<subseteq> exited st1"
    proof
      fix i assume "i \<in> {..<?n}"
      then have i: "i < ?n" by simp
      with sch obtain pick where c: "Child i pick \<in> set evs" by blast
      from wait [OF c i] have "Await zero pick ctx (promises ! i) \<noteq> None" by simp
      from All_run_scheduled [OF inv0 run c i this] show "i \<in> exited st1" .
    qed
  qed
  have nr: "\<not> isRejected (parent st1)"
  proof
    assume "isRejected (parent st1)"
    from All_run_rejected [OF inv0 run this fan_in_init_fields(2)]
    obtain i pick v e where "Child i pick \<in> set evs" "i < ?n"
      "Await zero pick ctx (promises ! i) = Some (v, Some e)" by blast
    with wait [of i pick] show False by simp
  qed
  have res: "results st1 = vs"
  proof (rule nth_equalityI)
    from inv1 len show "length (results st1) = length vs" by (simp add: fan_in_inv_def)
    fix j assume "j < length (results st1)"
    with inv1 have j: "j < ?n" by (simp add: fan_in_inv_def)
    with ex have "j \<in> exited st1" by simp
    moreover have "j \<notin> exited ?init" by (simp add: fan_in_init_fields(1))
    ultimately obtain pick v err where o: "Child j pick \<in> set evs"
      "Await zero pick ctx (promises ! j) = Some (v, err)"
      "err = None \<longrightarrow> results st1 ! j = v"
      using All_run_outcome [OF inv0 run] by blast
    with wait [OF o(1) j] show "results st1 ! j = vs ! j" by simp
  qed
  from join_resolve_all_values [OF inv1 ex nr] res
  obtain st where "join_resolve st1 = Inr st"
    "parent st = \<lparr>optionalValue = Some vs, reason = None, done_ch = True\<rparr>" by auto
  with run show ?thesis by (simp add: All_promises_def All_run_append)
qed

lemma AllSettled_goroutine_idle:
  "length promises \<le> i \<or> i \<in> exited st \<or> Await zero pick ctx (promises ! i) = None
   \<Longrightarrow> AllSettled_goroutine zero ctx promises i pick st = Inr st"
  by (auto simp add: AllSettled_goroutine_def)

lemma AllSettled_goroutine_slot:
  assumes "fan_in_inv (length promises) st" "i < length promises" "i \<notin> exited st"
    and "Await zero pick ctx (promises ! i) = Some (v, err)"
    and "slot = (if err \<noteq> None then \<lparr>Status = Rejected, Value = zero, Reason = err\<rparr>
                 else \<lparr>Status = Fulfilled, Value = v, Reason = None\<rparr>)"
  shows "AllSettled_goroutine zero ctx promises i pick st
           = Inr (st\<lparr>results := (results st)[i := slot], wg := wg st - 1,
                     exited := insert i (exited st)\<rparr>)
         \<and> fan_in_inv (length promises)
             (st\<lparr>results := (results st)[i := slot], wg := wg st - 1,
                     exited := insert i (exited st)\<rparr>)"
proof -
  from assms(1) have "length ((results st)[i := slot]) = length promises"
    by (simp add: fan_in_inv_def)
  from exit_after_write [OF assms(1-3) this]
  have e: "goroutine_exit i (st\<lparr>results := (results st)[i := slot]\<rparr>)
           = Inr (st\<lparr>results := (results st)[i := slot], wg := wg st - 1,
                     exited := insert i (exited st)\<rparr>)"
    and f: "fan_in_inv (length promises)
             (st\<lparr>results := (results st)[i := slot], wg := wg st - 1,
                     exited := insert i (exited st)\<rparr>)" by simp_all
  have "AllSettled_goroutine zero ctx promises i pick st
          = goroutine_exit i (st\<lparr>results := (results st)[i := slot]\<rparr>)"
    using assms(2-5) by (cases err) (simp_all add: AllSettled_goroutine_def)
  with e f show ?thesis by simp
qed

text \<open>What one scheduled event of \<^verbatim>\<open>AllSettled\<close> does to a state of the fan-in.\<close>

lemma AllSettled_step_E:
  assumes inv: "fan_in_inv (length promises) st"
  obtains st' where "AllSettled_step zero ctx promises ev st = Inr st'"
     and "fan_in_inv (length promises) st'"
     and "exited st \<subseteq> exited st'"
     and "isRejected (parent st') \<longrightarrow> isRejected (parent st)"
     and "\<forall>i pick. ev = Child i pick \<and> i < length promises
           \<and> Await zero pick ctx (promises ! i) \<noteq> None \<longrightarrow> i \<in> exited st'"
     and "\<forall>j. j \<in> exited st \<longrightarrow> results st' ! j = results st ! j"
     and "\<forall>j. j \<in> exited st' \<and> j \<notin> exited st \<longrightarrow>
           (\<exists>pick v err. ev = Child j pick \<and> Await zero pick ctx (promises ! j) = Some (v, err)
              \<and> results st' ! j
                  = (if err \<noteq> None then \<lparr>Status = Rejected, Value = zero, Reason = err\<rparr>
                     else \<lparr>Status = Fulfilled, Value = v, Reason = None\<rparr>))"
proof (cases ev)
  case Join
  show ?thesis
  proof (cases "joined st \<or> wg st \<noteq> 0")
    case True
    then have "join_resolve st = Inr st" by (rule join_resolve_blocked)
    with Join inv show ?thesis by (intro that [of st]) simp_all
  next
    case False
    with join_resolve_runs [OF inv]
    obtain p' where p: "isSettled (parent st) \<longrightarrow> p' = parent st"
      "\<not> isSettled (parent st) \<longrightarrow>
               p' = (parent st)\<lparr>optionalValue := Some (results st), done_ch := True\<rparr>"
      "join_resolve st = Inr (st\<lparr>parent := p', joined := True\<rparr>)"
      "fan_in_inv (length promises) (st\<lparr>parent := p', joined := True\<rparr>)"
      by auto
    have "isRejected p' \<longrightarrow> isRejected (parent st)"
      using p(1,2) by (cases "isSettled (parent st)") (simp_all add: isRejected_def)
    with Join p show ?thesis by (intro that [of "st\<lparr>parent := p', joined := True\<rparr>"]) simp_all
  qed
next
  case (Child i pick)
  show ?thesis
  proof (cases "length promises \<le> i \<or> i \<in> exited st \<or> Await zero pick ctx (promises ! i) = None")
    case True
    then have "AllSettled_goroutine zero ctx promises i pick st = Inr st"
      by (rule AllSettled_goroutine_idle)
    with Child inv True show ?thesis by (intro that [of st]) auto
  next
    case False
    then have i: "i < length promises" "i \<notin> exited st" by simp_all
    from False obtain v err where a: "Await zero pick ctx (promises ! i) = Some (v, err)"
      by auto
    from inv i have len: "i < length (results st)" by (simp add: fan_in_inv_def)
    define slot where "slot = (if err \<noteq> None then \<lparr>Status = Rejected, Value = zero, Reason = err\<rparr>
                 else \<lparr>Status = Fulfilled, Value = v, Reason = None\<rparr>)"
    from AllSettled_goroutine_slot [OF inv i a slot_def]
    have g: "AllSettled_goroutine zero ctx promises i pick st
           = Inr (st\<lparr>results := (results st)[i := slot], wg := wg st - 1,
                     exited := insert i (exited st)\<rparr>)"
      "fan_in_inv (length promises)
             (st\<lparr>results := (results st)[i := slot], wg := wg st - 1,
                     exited := insert i (exited st)\<rparr>)" by simp_all
    show ?thesis
    proof (rule that [of "st\<lparr>results := (results st)[i := slot], wg := wg st - 1,
                     exited := insert i (exited st)\<rparr>"])
      show "AllSettled_step zero ctx promises ev (st::'a SettledResult fan_in)
           = Inr (st\<lparr>results := (results st)[i := slot], wg := wg st - 1,
                     exited := insert i (exited st)\<rparr>)"
        using Child g(1) by simp
    qed (use g(2) Child a i len in \<open>auto simp add: nth_list_update slot_def\<close>)
  qed
qed

lemma AllSettled_step_inv:
  assumes "fan_in_inv (length promises) st"
  shows "\<exists>st'. AllSettled_step zero ctx promises ev st = Inr st' \<and> fan_in_inv (length promises) st'"
  by (rule AllSettled_step_E [OF assms, of zero ctx ev]) simp

lemma AllSettled_step_exited_mono:
  assumes "fan_in_inv (length promises) st" "AllSettled_step zero ctx promises ev st = Inr st1"
  shows "exited st \<subseteq> exited st1"
  by (rule AllSettled_step_E [OF assms(1), of zero ctx ev]) (use assms(2) in simp)

lemma AllSettled_step_not_rejected:
  assumes "fan_in_inv (length promises) st" "AllSettled_step zero ctx promises ev st = Inr st1"
    "\<not> isRejected (parent st)"
  shows "\<not> isRejected (parent st1)"
  by (rule AllSettled_step_E [OF assms(1), of zero ctx ev]) (use assms(2,3) in simp)

lemma AllSettled_step_scheduled:
  assumes "fan_in_inv (length promises) st"
    "AllSettled_step zero ctx promises (Child i pick) st = Inr st1"
    "i < length promises" "Await zero pick ctx (promises ! i) \<noteq> None"
  shows "i \<in> exited st1"
  by (rule AllSettled_step_E [OF assms(1), of zero ctx "Child i pick"]) (use assms(2-4) in simp)

lemma AllSettled_step_results_kept:
  assumes "fan_in_inv (length promises) st" "AllSettled_step zero ctx promises ev st = Inr st1"
    "j \<in> exited st"
  shows "results st1 ! j = results st ! j"
  by (rule AllSettled_step_E [OF assms(1), of zero ctx ev]) (use assms(2,3) in simp)

lemma AllSettled_step_outcome:
  assumes "fan_in_inv (length promises) st" "AllSettled_step zero ctx promises ev st = Inr st1"
    "j \<in> exited st1" "j \<notin> exited st"
  shows "\<exists>pick v err. ev = Child j pick \<and> Await zero pick ctx (promises ! j) = Some (v, err)
              \<and> results st1 ! j
                  = (if err \<noteq> None then \<lparr>Status = Rejected, Value = zero, Reason = err\<rparr>
                     else \<lparr>Status = Fulfilled, Value = v, Reason = None\<rparr>)"
  by (rule AllSettled_step_E [OF assms(1), of zero ctx ev]) (use assms(2-4) in simp)

lemma AllSettled_run_append:
  "AllSettled_run zero ctx promises (xs @ ys) st =
     (case AllSettled_run zero ctx promises xs st of
        Inl e \<Rightarrow> Inl e
      | Inr st' \<Rightarrow> AllSettled_run zero ctx promises ys st')"
  by (induction xs arbitrary: st) (simp_all split: sum.splits)

lemma AllSettled_run_Cons_Inr:
  assumes "fan_in_inv (length promises) st"
    and "AllSettled_run zero ctx promises (ev # evs) st = Inr st'"
  obtains st1 where "AllSettled_step zero ctx promises ev st = Inr st1"
    and "fan_in_inv (length promises) st1"
    and "AllSettled_run zero ctx promises evs st1 = Inr st'"
proof -
  from AllSettled_step_inv [OF assms(1), of zero ctx ev]
  obtain st1 where s: "AllSettled_step zero ctx promises ev st = Inr st1"
    "fan_in_inv (length promises) st1" by blast
  with assms(2) have "AllSettled_run zero ctx promises evs st1 = Inr st'" by simp
  with s that show thesis by blast
qed

lemma AllSettled_run_inv:
  "fan_in_inv (length promises) st \<Longrightarrow>
     \<exists>st'. AllSettled_run zero ctx promises evs st = Inr st' \<and> fan_in_inv (length promises) st'"
proof (induction evs arbitrary: st)
  case Nil
  then show ?case by simp
next
  case (Cons ev evs)
  from AllSettled_step_inv [OF Cons.prems, of zero ctx ev]
  obtain st1 where s: "AllSettled_step zero ctx promises ev st = Inr st1"
    "fan_in_inv (length promises) st1" by blast
  from Cons.IH [OF s(2)] s(1) show ?case by simp
qed

lemma AllSettled_run_exited_mono:
  "fan_in_inv (length promises) st \<Longrightarrow> AllSettled_run zero ctx promises evs st = Inr st'
     \<Longrightarrow> exited st \<subseteq> exited st'"
proof (induction evs arbitrary: st)
  case Nil
  then show ?case by simp
next
  case (Cons ev evs)
  from Cons.prems obtain st1 where s: "AllSettled_step zero ctx promises ev st = Inr st1"
    "fan_in_inv (length promises) st1" "AllSettled_run zero ctx promises evs st1 = Inr st'"
    by (rule AllSettled_run_Cons_Inr)
  from AllSettled_step_exited_mono [OF Cons.prems(1) s(1)] Cons.IH [OF s(2,3)]
  show ?case by blast
qed

text \<open>No event of \<^verbatim>\<open>AllSettled\<close> rejects the parent.\<close>

lemma AllSettled_run_not_rejected:
  "fan_in_inv (length promises) st \<Longrightarrow> AllSettled_run zero ctx promises evs st = Inr st'
     \<Longrightarrow> \<not> isRejected (parent st) \<Longrightarrow> \<not> isRejected (parent st')"
proof (induction evs arbitrary: st)
  case Nil
  then show ?case by simp
next
  case (Cons ev evs)
  from Cons.prems(1,2) obtain st1 where s: "AllSettled_step zero ctx promises ev st = Inr st1"
    "fan_in_inv (length promises) st1" "AllSettled_run zero ctx promises evs st1 = Inr st'"
    by (rule AllSettled_run_Cons_Inr)
  from AllSettled_step_not_rejected [OF Cons.prems(1) s(1) Cons.prems(3)]
  have "\<not> isRejected (parent st1)" .
  from Cons.IH [OF s(2,3) this] show ?case .
qed

lemma AllSettled_run_scheduled:
  "fan_in_inv (length promises) st \<Longrightarrow> AllSettled_run zero ctx promises evs st = Inr st'
     \<Longrightarrow> Child i pick \<in> set evs \<Longrightarrow> i < length promises
     \<Longrightarrow> Await zero pick ctx (promises ! i) \<noteq> None \<Longrightarrow> i \<in> exited st'"
proof (induction evs arbitrary: st)
  case Nil
  then show ?case by simp
next
  case (Cons ev evs)
  from Cons.prems(1,2) obtain st1 where s: "AllSettled_step zero ctx promises ev st = Inr st1"
    "fan_in_inv (length promises) st1" "AllSettled_run zero ctx promises evs st1 = Inr st'"
    by (rule AllSettled_run_Cons_Inr)
  show ?case
  proof (cases "ev = Child i pick")
    case True
    from AllSettled_step_scheduled [OF Cons.prems(1) s(1) [unfolded True] Cons.prems(4,5)]
    have "i \<in> exited st1" .
    with AllSettled_run_exited_mono [OF s(2,3)] show ?thesis by blast
  next
    case False
    with Cons.prems(3) have "Child i pick \<in> set evs" by simp
    from Cons.IH [OF s(2,3) this Cons.prems(4,5)] show ?thesis .
  qed
qed

lemma AllSettled_run_results_kept:
  "fan_in_inv (length promises) st \<Longrightarrow> AllSettled_run zero ctx promises evs st = Inr st'
     \<Longrightarrow> j \<in> exited st \<Longrightarrow> results st' ! j = results st ! j"
proof (induction evs arbitrary: st)
  case Nil
  then show ?case by simp
next
  case (Cons ev evs)
  from Cons.prems(1,2) obtain st1 where s: "AllSettled_step zero ctx promises ev st = Inr st1"
    "fan_in_inv (length promises) st1" "AllSettled_run zero ctx promises evs st1 = Inr st'"
    by (rule AllSettled_run_Cons_Inr)
  from AllSettled_step_results_kept [OF Cons.prems(1) s(1) Cons.prems(3)]
  have a: "results st1 ! j = results st ! j" .
  from AllSettled_step_exited_mono [OF Cons.prems(1) s(1)] Cons.prems(3)
  have "j \<in> exited st1" by blast
  from Cons.IH [OF s(2,3) this] a show ?case by simp
qed

text \<open>
  The slot of a goroutine that has returned records what its wait returned: the error
  if there was one, the value otherwise.
\<close>

lemma AllSettled_run_outcome:
  "fan_in_inv (length promises) st \<Longrightarrow> AllSettled_run zero ctx promises evs st = Inr st'
     \<Longrightarrow> j \<in> exited st' \<Longrightarrow> j \<notin> exited st
     \<Longrightarrow> \<exists>pick v err. Child j pick \<in> set evs
            \<and> Await zero pick ctx (promises ! j) = Some (v, err)
            \<and> results st' ! j
                  = (if err \<noteq> None then \<lparr>Status = Rejected, Value = zero, Reason = err\<rparr>
                     else \<lparr>Status = Fulfilled, Value = v, Reason = None\<rparr>)"
proof (induction evs arbitrary: st)
  case Nil
  then show ?case by simp
next
  case (Cons ev evs)
  from Cons.prems(1,2) obtain st1 where s: "AllSettled_step zero ctx promises ev st = Inr st1"
    "fan_in_inv (length promises) st1" "AllSettled_run zero ctx promises evs st1 = Inr st'"
    by (rule AllSettled_run_Cons_Inr)
  show ?case
  proof (cases "j \<in> exited st1")
    case True
    from AllSettled_step_outcome [OF Cons.prems(1) s(1) True Cons.prems(4)]
    obtain pick v err where o: "ev = Child j pick"
      "Await zero pick ctx (promises ! j) = Some (v, err)"
      "results st1 ! j
                  = (if err \<noteq> None then \<lparr>Status = Rejected, Value = zero, Reason = err\<rparr>
                     else \<lparr>Status = Fulfilled, Value = v, Reason = None\<rparr>)" by blast
    from AllSettled_run_results_kept [OF s(2,3) True] o(3)
    have "results st' ! j
                  = (if err \<noteq> None then \<lparr>Status = Rejected, Value = zero, Reason = err\<rparr>
                     else \<lparr>Status = Fulfilled, Value = v, Reason = None\<rparr>)" by simp
    with o(1,2) have "Child j pick \<in> set (ev # evs)
            \<and> Await zero pick ctx (promises ! j) = Some (v, err)
            \<and> results st' ! j
                  = (if err \<noteq> None then \<lparr>Status = Rejected, Value = zero, Reason = err\<rparr>
                     else \<lparr>Status = Fulfilled, Value = v, Reason = None\<rparr>)" by simp
    then show ?thesis by blast
  next
    case False
    from Cons.IH [OF s(2,3) Cons.prems(3) False]
    obtain pick v err where "Child j pick \<in> set evs"
            "Await zero pick ctx (promises ! j) = Some (v, err)"
            "results st' ! j
                  = (if err \<noteq> None then \<lparr>Status = Rejected, Value = zero, Reason = err\<rparr>
                     else \<lparr>Status = Fulfilled, Value = v, Reason = None\<rparr>)" by blast
    then have "Child j pick \<in> set (ev # evs)
            \<and> Await zero pick ctx (promises ! j) = Some (v, err)
            \<and> results st' ! j
                  = (if err \<noteq> None then \<lparr>Status = Rejected, Value = zero, Reason = err\<rparr>
                     else \<lparr>Status = Fulfilled, Value = v, Reason = None\<rparr>)" by simp
    then show ?thesis by blast
  qed
qed

lemmas run_defs = All_promises_def AllSettled_def fan_in_init_def All_goroutine_def
  AllSettled_goroutine_def SettledResult_zero_def
  Await_def select_done_def Option_Value_def reject_def resolve_def close_done_def
  goroutine_exit_def wg_Done_def join_resolve_def isSettled_def isFulfilled_def isRejected_def New_def

lemma AllSettled_inv:
  "\<exists>st. AllSettled zero ctx promises evs = Inr st \<and> fan_in_inv (length promises) st"
  unfolding AllSettled_def by (rule AllSettled_run_inv) (rule fan_in_init_inv)

lemma AllSettled_values:
  assumes len: "length vs = length promises"
    and ful: "\<forall>i<length promises.
        promises ! i = \<lparr>optionalValue = Some (vs ! i), reason = None, done_ch = True\<rparr>"
    and tok: "\<not> ctx_done ctx \<or> (\<forall>i pick. Child i pick \<in> set evs \<longrightarrow> pick = PromiseDone)"
    and sch: "\<forall>i<length promises. \<exists>pick. Child i pick \<in> set evs"
  shows "\<exists>st. AllSettled zero ctx promises (evs @ [Join]) = Inr st
     \<and> parent st = \<lparr>optionalValue = Some (map (\<lambda>v. \<lparr>Status = Fulfilled, Value = v, Reason = None\<rparr>) vs),
                      reason = None, done_ch = True\<rparr>"
proof -
  let ?n = "length promises"
  let ?init = "fan_in_init (SettledResult_zero zero) ?n"
  have inv0: "fan_in_inv ?n ?init" by (rule fan_in_init_inv)
  from AllSettled_run_inv [OF inv0, of zero ctx evs]
  obtain st1 where run: "AllSettled_run zero ctx promises evs ?init = Inr st1"
    and inv1: "fan_in_inv ?n st1" by blast
  have wait: "Await zero pick ctx (promises ! i) = Some (vs ! i, None)"
    if "Child i pick \<in> set evs" "i < ?n" for i pick
  proof -
    from ful that(2)
    have p: "promises ! i = \<lparr>optionalValue = Some (vs ! i), reason = None, done_ch = True\<rparr>"
      by simp
    from tok that(1) have "\<not> ctx_done ctx \<or> pick = PromiseDone" by blast
    then show ?thesis
      unfolding p by (auto simp add: Await_def select_done_def Option_Value_def)
  qed
  have ex: "exited st1 = {..<?n}"
  proof
    from inv1 show "exited st1 \<subseteq> {..<?n}" by (simp add: fan_in_inv_def)
    show "{..<?n} \<subseteq> exited st1"
    proof
      fix i assume "i \<in> {..<?n}"
      then have i: "i < ?n" by simp
      with sch obtain pick where c: "Child i pick \<in> set evs" by blast
      from wait [OF c i] have "Await zero pick ctx (promises ! i) \<noteq> None" by simp
      from AllSettled_run_scheduled [OF inv0 run c i this] show "i \<in> exited st1" .
    qed
  qed
  from AllSettled_run_not_rejected [OF inv0 run fan_in_init_fields(2)]
  have nr: "\<not> isRejected (parent st1)" .
  have res: "results st1 = map (\<lambda>v. \<lparr>Status = Fulfilled, Value = v, Reason = None\<rparr>) vs"
  proof (rule nth_equalityI)
    from inv1 len
    show "length (results st1) = length (map (\<lambda>v. \<lparr>Status = Fulfilled, Value = v, Reason = None\<rparr>) vs)"
      by (simp add: fan_in_inv_def)
    fix j assume "j < length (results st1)"
    with inv1 have j: "j < ?n" by (simp add: fan_in_inv_def)
    with ex have "j \<in> exited st1" by simp
    moreover have "j \<notin> exited ?init" by (simp add: fan_in_init_fields(1))
    ultimately obtain pick v err where o: "Child j pick \<in> set evs"
      "Await zero pick ctx (promises ! j) = Some (v, err)"
      "results st1 ! j
                  = (if err \<noteq> None then \<lparr>Status = Rejected, Value = zero, Reason = err\<rparr>
                     else \<lparr>Status = Fulfilled, Value = v, Reason = None\<rparr>)"
      using AllSettled_run_outcome [OF inv0 run] by blast
    with wait [OF o(1) j] j len
    show "results st1 ! j = map (\<lambda>v. \<lparr>Status = Fulfilled, Value = v, Reason = None\<rparr>) vs ! j"
      by simp
  qed
  from join_resolve_all_values [OF inv1 ex nr] res
  obtain st where "join_resolve st1 = Inr st"
    "parent st = \<lparr>optionalValue = Some (map (\<lambda>v. \<lparr>Status = Fulfilled, Value = v, Reason = None\<rparr>) vs),
                      reason = None, done_ch = True\<rparr>" by auto
  with run show ?thesis by (simp add: AllSettled_def AllSettled_run_append)
qed

text \<open>The fan-in of no promise at all.\<close>

lemma All_run_empty_joined:
  "All_run zero ctx [] evs \<lparr>parent = \<lparr>optionalValue = Some [], reason = None, done_ch = True\<rparr>,
       results = [], wg = 0, exited = {}, joined = True\<rparr>
    = Inr \<lparr>parent = \<lparr>optionalValue = Some [], reason = None, done_ch = True\<rparr>,
       results = [], wg = 0, exited = {}, joined = True\<rparr>"
proof (induction evs)
  case Nil
  show ?case by simp
next
  case (Cons ev evs)
  then show ?case by (cases ev) (simp_all add: All_goroutine_def join_resolve_def)
qed

lemma All_run_empty:
  "All_run zero ctx [] (evs @ Join # evs') (fan_in_init zero 0)
    = Inr \<lparr>parent = \<lparr>optionalValue = Some [], reason = None, done_ch = True\<rparr>,
       results = [], wg = 0, exited = {}, joined = True\<rparr>"
proof (induction evs)
  case Nil
  show ?case
    by (simp add: All_run_empty_joined fan_in_init_def join_resolve_def resolve_def New_def
        isSettled_def isFulfilled_def isRejected_def close_done_def)
next
  case (Cons ev evs)
  show ?case
  proof (cases ev)
    case (Child i pick)
    with Cons show ?thesis by (simp add: All_goroutine_def)
  next
    case Join
    then show ?thesis
      by (simp add: All_run_empty_joined fan_in_init_def join_resolve_def resolve_def New_def
        isSettled_def isFulfilled_def isRejected_def close_done_def)
  qed
qed

lemma AllSettled_run_empty_joined:
  "AllSettled_run zero ctx [] evs \<lparr>parent = \<lparr>optionalValue = Some [], reason = None, done_ch = True\<rparr>,
       results = [], wg = 0, exited = {}, joined = True\<rparr>
    = Inr \<lparr>parent = \<lparr>optionalValue = Some [], reason = None, done_ch = True\<rparr>,
       results = [], wg = 0, exited = {}, joined = True\<rparr>"
proof (induction evs)
  case Nil
  show ?case by simp
next
  case (Cons ev evs)
  then show ?case by (cases ev) (simp_all add: AllSettled_goroutine_def join_resolve_def)
qed

lemma AllSettled_run_empty:
  "AllSettled_run zero ctx [] (evs @ Join # evs') (fan_in_init z 0)
    = Inr \<lparr>parent = \<lparr>optionalValue = Some [], reason = None, done_ch = True\<rparr>,
       results = [], wg = 0, exited = {}, joined = True\<rparr>"
proof (induction evs)
  case Nil
  show ?case
    by (simp add: AllSettled_run_empty_joined fan_in_init_def join_resolve_def resolve_def New_def
        isSettled_def isFulfilled_def isRejected_def close_done_def)
next
  case (Cons ev evs)
  show ?case
  proof (cases ev)
    case (Child i pick)
    with Cons show ?thesis by (simp add: AllSettled_goroutine_def)
  next
    case Join
    then show ?thesis
      by (simp add: AllSettled_run_empty_joined fan_in_init_def join_resolve_def resolve_def New_def
        isSettled_def isFulfilled_def isRejected_def close_done_def)
  qed
qed

section \<open>The claims about the aggregators\<close>

text \<open>
  Claim C2, as stated, fails: \<^verbatim>\<open>All\<close> over a rejected promise and a promise that never
  settles, with a token that never fires. Once the first goroutine has run the parent
  is rejected, while the wait on the second promise has not returned and never will.
\<close>

theorem All_rejects_before_all_waits:
  "All_promises (0::int) \<lparr>ctx_done = False, ctx_err = None\<rparr>
        [\<lparr>optionalValue = None, reason = Some (userError ''boom''), done_ch = True\<rparr>, New]
        [Child 0 PromiseDone]
    = Inr \<lparr>parent = \<lparr>optionalValue = None, reason = Some (userError ''boom''), done_ch = True\<rparr>,
           results = [0, 0], wg = 1, exited = {0}, joined = False\<rparr>
   \<and> isSettled \<lparr>optionalValue = None :: int list option, reason = Some (userError ''boom''),
        done_ch = True\<rparr>
   \<and> Await (0::int) PromiseDone \<lparr>ctx_done = False, ctx_err = None\<rparr> New = None
   \<and> Await (0::int) CtxDone \<lparr>ctx_done = False, ctx_err = None\<rparr> New = None"
  by (simp add: run_defs)

text \<open>
  Claim C2, amended. Under every schedule \<^verbatim>\<open>All\<close> runs without a panic, and its parent
  is fulfilled only by the executor after every goroutine has returned from its wait,
  with the slice. A rejection does not wait: when the parent is still pending and the
  wait of a goroutine that has not run returns an error, that goroutine rejects the
  parent with the error in its own step, whatever the other goroutines have done.
\<close>

theorem All_fulfils_only_after_all_waits:
  "\<exists>st. All_promises zero ctx promises evs = Inr st
     \<and> (isFulfilled (parent st) \<longrightarrow>
          exited st = {..<length promises} \<and> joined st
          \<and> optionalValue (parent st) = Some (results st))
     \<and> (\<forall>i pick v e. \<not> isSettled (parent st) \<and> i < length promises \<and> i \<notin> exited st
            \<and> Await zero pick ctx (promises ! i) = Some (v, Some e) \<longrightarrow>
          (\<exists>st'. All_promises zero ctx promises (evs @ [Child i pick]) = Inr st'
             \<and> parent st' = \<lparr>optionalValue = None, reason = Some e, done_ch = True\<rparr>
             \<and> exited st' = insert i (exited st)))"
proof -
  from All_promises_inv [of zero ctx promises evs]
  obtain st where run: "All_promises zero ctx promises evs = Inr st"
    and inv: "fan_in_inv (length promises) st" by blast
  have a: "isFulfilled (parent st) \<longrightarrow>
          exited st = {..<length promises} \<and> joined st
          \<and> optionalValue (parent st) = Some (results st)"
    using inv by (simp add: fan_in_inv_def)
  have b: "\<exists>st'. All_promises zero ctx promises (evs @ [Child i pick]) = Inr st'
             \<and> parent st' = \<lparr>optionalValue = None, reason = Some e, done_ch = True\<rparr>
             \<and> exited st' = insert i (exited st)"
    if ns: "\<not> isSettled (parent st)" and i: "i < length promises" "i \<notin> exited st"
      and w: "Await zero pick ctx (promises ! i) = Some (v, Some e)" for i pick v e
  proof -
    from All_goroutine_error [OF inv i w] ns
    have g: "All_goroutine zero ctx promises i pick st
           = Inr (st\<lparr>parent := (parent st)\<lparr>reason := Some e, done_ch := True\<rparr>,
                     wg := wg st - 1, exited := insert i (exited st)\<rparr>)" by auto
    from ns have "optionalValue (parent st) = None"
      by (simp add: isSettled_def isFulfilled_def)
    then have "(parent st)\<lparr>reason := Some e, done_ch := True\<rparr>
        = \<lparr>optionalValue = None, reason = Some e, done_ch = True\<rparr>"
      by (intro Promise_eqI) simp_all
    with g run show ?thesis by (simp add: All_promises_def All_run_append)
  qed
  from run a b show ?thesis by blast
qed

theorem All_fulfils_only_after_all_waits_witness:
  "All_promises (0::int) \<lparr>ctx_done = False, ctx_err = None\<rparr>
        [\<lparr>optionalValue = Some 1, reason = None, done_ch = True\<rparr>,
         \<lparr>optionalValue = Some 2, reason = None, done_ch = True\<rparr>]
        [Child 1 PromiseDone, Child 0 PromiseDone, Join]
    = Inr \<lparr>parent = \<lparr>optionalValue = Some [1, 2], reason = None, done_ch = True\<rparr>,
           results = [1, 2], wg = 0, exited = {0, 1}, joined = True\<rparr>
   \<and> isFulfilled \<lparr>optionalValue = Some [1, 2 :: int], reason = None, done_ch = True\<rparr>
   \<and> {0, 1} = {..<length [\<lparr>optionalValue = Some (1::int), reason = None, done_ch = True\<rparr>,
         \<lparr>optionalValue = Some 2, reason = None, done_ch = True\<rparr>]}
   \<and> All_promises (0::int) \<lparr>ctx_done = False, ctx_err = None\<rparr>
        [\<lparr>optionalValue = None, reason = Some (userError ''boom''), done_ch = True\<rparr>,
         \<lparr>optionalValue = Some 2, reason = None, done_ch = True\<rparr>] []
    = Inr \<lparr>parent = New, results = [0, 0], wg = 2, exited = {}, joined = False\<rparr>
   \<and> \<not> isSettled (New :: int list Promise)
   \<and> Await (0::int) PromiseDone \<lparr>ctx_done = False, ctx_err = None\<rparr>
        \<lparr>optionalValue = None, reason = Some (userError ''boom''), done_ch = True\<rparr>
      = Some (0, Some (userError ''boom''))
   \<and> All_promises (0::int) \<lparr>ctx_done = False, ctx_err = None\<rparr>
        [\<lparr>optionalValue = None, reason = Some (userError ''boom''), done_ch = True\<rparr>,
         \<lparr>optionalValue = Some 2, reason = None, done_ch = True\<rparr>] ([] @ [Child 0 PromiseDone])
    = Inr \<lparr>parent = \<lparr>optionalValue = None, reason = Some (userError ''boom''), done_ch = True\<rparr>,
           results = [0, 0], wg = 1, exited = {0}, joined = False\<rparr>"
  using All_fulfils_only_after_all_waits
      [of 0 "\<lparr>ctx_done = False, ctx_err = None\<rparr>"
          "[\<lparr>optionalValue = Some (1::int), reason = None, done_ch = True\<rparr>,
            \<lparr>optionalValue = Some 2, reason = None, done_ch = True\<rparr>]"
          "[Child 1 PromiseDone, Child 0 PromiseDone, Join]"]
    All_fulfils_only_after_all_waits
      [of 0 "\<lparr>ctx_done = False, ctx_err = None\<rparr>"
          "[\<lparr>optionalValue = None, reason = Some (userError ''boom''), done_ch = True\<rparr>,
            \<lparr>optionalValue = Some (2::int), reason = None, done_ch = True\<rparr>]"
          "[]"]
  by (auto simp add: run_defs)

text \<open>
  Claim C3, as stated, fails: the token's channel is closed and its \<^verbatim>\<open>Err()\<close> is
  \<^verbatim>\<open>nil\<close>, the one promise never settles. The wait returns no error and no value of
  the promise; \<^verbatim>\<open>All\<close> stores the zero value it got and the parent is fulfilled with
  \<open>[0]\<close>, not rejected with an error of a missing value.
\<close>

theorem All_no_missing_value_error:
  "Await (0::int) CtxDone \<lparr>ctx_done = True, ctx_err = None\<rparr> New = Some (0, None)
   \<and> All_promises (0::int) \<lparr>ctx_done = True, ctx_err = None\<rparr> [New] [Child 0 CtxDone, Join]
    = Inr \<lparr>parent = \<lparr>optionalValue = Some [0], reason = None, done_ch = True\<rparr>,
           results = [0], wg = 0, exited = {0}, joined = True\<rparr>
   \<and> \<not> isRejected \<lparr>optionalValue = Some [0::int], reason = None, done_ch = True\<rparr>"
  by (simp add: run_defs)

text \<open>
  Claim C3, amended. A failure is a wait that returns an error that is not \<^verbatim>\<open>nil\<close>,
  the reason of the promise or the error of the token. When the goroutine of index \<open>i\<close>
  runs for the first time, its wait returns the error \<open>e\<close>, and no wait scheduled
  before it has returned an error, the parent is rejected with \<open>e\<close> and stays so under
  every continuation of the schedule; a waiter on the parent gets the \<^verbatim>\<open>nil\<close> slice and
  \<open>e\<close>. A wait that returns no error is never a failure: under any schedule the
  parent is rejected only if some scheduled wait returned an error.
\<close>

theorem All_rejects_with_first_error:
  assumes before: "\<forall>j pk. Child j pk \<in> set evs1 \<and> j < length promises \<longrightarrow>
        (\<forall>v e'. Await zero pk ctx (promises ! j) \<noteq> Some (v, Some e'))"
    and fresh: "\<forall>pk. Child i pk \<notin> set evs1"
    and i: "i < length promises"
    and w: "Await zero pick ctx (promises ! i) = Some (v, Some e)"
  shows "(\<exists>st. All_promises zero ctx promises (evs1 @ Child i pick # evs2) = Inr st
     \<and> parent st = \<lparr>optionalValue = None, reason = Some e, done_ch = True\<rparr>
     \<and> Await [] pick' \<lparr>ctx_done = False, ctx_err = None\<rparr> (parent st) = Some ([], Some e))
   \<and> (\<forall>st. All_promises zero ctx promises evs = Inr st \<and> isRejected (parent st) \<longrightarrow>
         (\<exists>j pk v' e'. Child j pk \<in> set evs \<and> j < length promises
            \<and> Await zero pk ctx (promises ! j) = Some (v', Some e')))"
proof -
  let ?n = "length promises"
  let ?init = "fan_in_init zero ?n"
  have inv0: "fan_in_inv ?n ?init" by (rule fan_in_init_inv)
  have only: "\<exists>j pk v' e'. Child j pk \<in> set evs \<and> j < length promises
            \<and> Await zero pk ctx (promises ! j) = Some (v', Some e')"
    if "All_promises zero ctx promises evs = Inr st" "isRejected (parent st)" for st
  proof -
    from that(1) have "All_run zero ctx promises evs ?init = Inr st"
      by (simp add: All_promises_def)
    from All_run_rejected [OF inv0 this that(2) fan_in_init_fields(2)] show ?thesis .
  qed
  from All_run_inv [OF inv0, of zero ctx evs1]
  obtain st1 where run1: "All_run zero ctx promises evs1 ?init = Inr st1"
    and inv1: "fan_in_inv ?n st1" by blast
  have nr: "\<not> isRejected (parent st1)"
  proof
    assume "isRejected (parent st1)"
    from All_run_rejected [OF inv0 run1 this fan_in_init_fields(2)]
    obtain j pk v' e' where "Child j pk \<in> set evs1" "j < ?n"
      "Await zero pk ctx (promises ! j) = Some (v', Some e')" by blast
    with before show False by blast
  qed
  have ne: "i \<notin> exited st1"
  proof
    assume "i \<in> exited st1"
    moreover have "i \<notin> exited ?init" by (simp add: fan_in_init_fields(1))
    ultimately have "\<exists>pk. Child i pk \<in> set evs1"
      by (rule All_run_exited_scheduled [OF inv0 run1])
    with fresh show False by blast
  qed
  from not_exited_pending_join [OF inv1 i ne] nr have ns: "\<not> isSettled (parent st1)"
    by (simp add: isSettled_def)
  define st2 where "st2 = st1\<lparr>parent := (parent st1)\<lparr>reason := Some e, done_ch := True\<rparr>,
                     wg := wg st1 - 1, exited := insert i (exited st1)\<rparr>"
  from All_goroutine_error [OF inv1 i ne w] ns
  have g: "All_goroutine zero ctx promises i pick st1 = Inr st2"
    and inv2: "fan_in_inv ?n st2" by (auto simp add: st2_def)
  from ns have "optionalValue (parent st1) = None"
    by (simp add: isSettled_def isFulfilled_def)
  then have p2: "parent st2 = \<lparr>optionalValue = None, reason = Some e, done_ch = True\<rparr>"
    unfolding st2_def by (intro Promise_eqI) simp_all
  then have s2: "isSettled (parent st2)" by (simp add: isSettled_def isRejected_def)
  from All_run_inv [OF inv2, of zero ctx evs2]
  obtain st3 where run3: "All_run zero ctx promises evs2 st2 = Inr st3" by blast
  from All_run_settled [OF inv2 run3 s2] p2
  have p3: "parent st3 = \<lparr>optionalValue = None, reason = Some e, done_ch = True\<rparr>" by simp
  have "All_promises zero ctx promises (evs1 @ Child i pick # evs2) = Inr st3"
    using run1 g run3 by (simp add: All_promises_def All_run_append)
  moreover have "Await [] pick' \<lparr>ctx_done = False, ctx_err = None\<rparr> (parent st3) = Some ([], Some e)"
    unfolding p3 by (simp add: Await_def select_done_def Option_Value_def)
  ultimately have "\<exists>st. All_promises zero ctx promises (evs1 @ Child i pick # evs2) = Inr st
     \<and> parent st = \<lparr>optionalValue = None, reason = Some e, done_ch = True\<rparr>
     \<and> Await [] pick' \<lparr>ctx_done = False, ctx_err = None\<rparr> (parent st) = Some ([], Some e)"
    using p3 by blast
  with only show ?thesis by blast
qed

theorem All_rejects_with_first_error_witness:
  "\<exists>st. All_promises (0::int) \<lparr>ctx_done = False, ctx_err = None\<rparr>
        [\<lparr>optionalValue = Some 1, reason = None, done_ch = True\<rparr>,
         \<lparr>optionalValue = None, reason = Some (userError ''boom''), done_ch = True\<rparr>,
         \<lparr>optionalValue = Some 3, reason = None, done_ch = True\<rparr>]
        ([Child 0 PromiseDone] @ Child 1 PromiseDone # [Child 2 PromiseDone, Join]) = Inr st
     \<and> parent st = \<lparr>optionalValue = None, reason = Some (userError ''boom''), done_ch = True\<rparr>
     \<and> Await [] PromiseDone \<lparr>ctx_done = False, ctx_err = None\<rparr> (parent st)
         = Some ([], Some (userError ''boom''))"
proof -
  let ?ctx = "\<lparr>ctx_done = False, ctx_err = None\<rparr>"
  let ?ps = "[\<lparr>optionalValue = Some (1::int), reason = None, done_ch = True\<rparr>,
         \<lparr>optionalValue = None, reason = Some (userError ''boom''), done_ch = True\<rparr>,
         \<lparr>optionalValue = Some 3, reason = None, done_ch = True\<rparr>]"
  have h1: "\<forall>j pk. Child j pk \<in> set [Child 0 PromiseDone] \<and> j < length ?ps \<longrightarrow>
        (\<forall>v e'. Await 0 pk ?ctx (?ps ! j) \<noteq> Some (v, Some e'))"
    by (simp add: Await_def select_done_def Option_Value_def)
  have h2: "\<forall>pk. Child 1 pk \<notin> set [Child 0 PromiseDone]" by simp
  have h3: "1 < length ?ps" by simp
  have h4: "Await 0 PromiseDone ?ctx (?ps ! 1) = Some (0, Some (userError ''boom''))"
    by (simp add: Await_def select_done_def Option_Value_def)
  from All_rejects_with_first_error [OF h1 h2 h3 h4, of "[Child 2 PromiseDone, Join]" PromiseDone]
  show ?thesis by blast
qed

text \<open>
  Claim C6, as stated, fails on the same input: the wait returns no error and no value
  of the promise, and \<^verbatim>\<open>AllSettled\<close> records the slot as fulfilled with the zero
  value, not as rejected.
\<close>

theorem AllSettled_no_missing_value_slot:
  "Await (0::int) CtxDone \<lparr>ctx_done = True, ctx_err = None\<rparr> New = Some (0, None)
   \<and> AllSettled (0::int) \<lparr>ctx_done = True, ctx_err = None\<rparr> [New] [Child 0 CtxDone, Join]
   = Inr \<lparr>parent = \<lparr>optionalValue = Some [\<lparr>Status = Fulfilled, Value = 0, Reason = None\<rparr>],
                      reason = None, done_ch = True\<rparr>,
           results = [\<lparr>Status = Fulfilled, Value = 0, Reason = None\<rparr>], wg = 0, exited = {0},
           joined = True\<rparr>"
  by (simp add: run_defs)

text \<open>
  Claim C6, amended. Under every schedule \<^verbatim>\<open>AllSettled\<close> runs without a panic and its
  parent is never rejected. The slot of every goroutine that has returned records what
  its wait returned, at its own index: \<^verbatim>\<open>Rejected\<close> with the error when there is one,
  \<^verbatim>\<open>Fulfilled\<close> with the value otherwise. The parent is fulfilled only after every
  goroutine has returned, and once every goroutine has been scheduled with a wait that
  can return, the executor fulfils the parent with the slice.
\<close>

theorem AllSettled_never_rejects:
  "\<exists>st. AllSettled zero ctx promises evs = Inr st
     \<and> \<not> isRejected (parent st)
     \<and> (\<forall>j \<in> exited st. \<exists>pick v err. Child j pick \<in> set evs
            \<and> Await zero pick ctx (promises ! j) = Some (v, err)
            \<and> results st ! j
                  = (if err \<noteq> None then \<lparr>Status = Rejected, Value = zero, Reason = err\<rparr>
                     else \<lparr>Status = Fulfilled, Value = v, Reason = None\<rparr>))
     \<and> (isFulfilled (parent st) \<longrightarrow>
          exited st = {..<length promises} \<and> optionalValue (parent st) = Some (results st))
     \<and> ((\<forall>i<length promises. \<exists>pick. Child i pick \<in> set evs
              \<and> Await zero pick ctx (promises ! i) \<noteq> None) \<longrightarrow>
          (\<exists>st'. AllSettled zero ctx promises (evs @ [Join]) = Inr st'
             \<and> parent st' = \<lparr>optionalValue = Some (results st), reason = None, done_ch = True\<rparr>))"
proof -
  let ?n = "length promises"
  let ?init = "fan_in_init (SettledResult_zero zero) ?n"
  have inv0: "fan_in_inv ?n ?init" by (rule fan_in_init_inv)
  from AllSettled_run_inv [OF inv0, of zero ctx evs]
  obtain st where run: "AllSettled_run zero ctx promises evs ?init = Inr st"
    and inv: "fan_in_inv ?n st" by blast
  from AllSettled_run_not_rejected [OF inv0 run fan_in_init_fields(2)]
  have nr: "\<not> isRejected (parent st)" .
  have slots: "\<exists>pick v err. Child j pick \<in> set evs
            \<and> Await zero pick ctx (promises ! j) = Some (v, err)
            \<and> results st ! j
                  = (if err \<noteq> None then \<lparr>Status = Rejected, Value = zero, Reason = err\<rparr>
                     else \<lparr>Status = Fulfilled, Value = v, Reason = None\<rparr>)"
    if "j \<in> exited st" for j
  proof -
    have "j \<notin> exited ?init" by (simp add: fan_in_init_fields(1))
    with that show ?thesis by (rule AllSettled_run_outcome [OF inv0 run])
  qed
  have ful: "isFulfilled (parent st) \<longrightarrow>
          exited st = {..<?n} \<and> optionalValue (parent st) = Some (results st)"
    using inv by (simp add: fan_in_inv_def)
  have live: "\<exists>st'. AllSettled zero ctx promises (evs @ [Join]) = Inr st'
             \<and> parent st' = \<lparr>optionalValue = Some (results st), reason = None, done_ch = True\<rparr>"
    if sch: "\<forall>i<?n. \<exists>pick. Child i pick \<in> set evs
              \<and> Await zero pick ctx (promises ! i) \<noteq> None"
  proof -
    have ex: "exited st = {..<?n}"
    proof
      from inv show "exited st \<subseteq> {..<?n}" by (simp add: fan_in_inv_def)
      show "{..<?n} \<subseteq> exited st"
      proof
        fix i assume "i \<in> {..<?n}"
        then have i: "i < ?n" by simp
        with sch obtain pick where c: "Child i pick \<in> set evs"
          "Await zero pick ctx (promises ! i) \<noteq> None" by blast
        from AllSettled_run_scheduled [OF inv0 run c(1) i c(2)] show "i \<in> exited st" .
      qed
    qed
    from join_resolve_all_values [OF inv ex nr]
    obtain st' where "join_resolve st = Inr st'"
      "parent st' = \<lparr>optionalValue = Some (results st), reason = None, done_ch = True\<rparr>" by blast
    with run show ?thesis by (simp add: AllSettled_def AllSettled_run_append)
  qed
  from run have "AllSettled zero ctx promises evs = Inr st" by (simp add: AllSettled_def)
  with nr slots ful live show ?thesis by blast
qed

theorem AllSettled_never_rejects_witness:
  "AllSettled (0::int) \<lparr>ctx_done = False, ctx_err = None\<rparr>
        [\<lparr>optionalValue = Some 1, reason = None, done_ch = True\<rparr>,
         \<lparr>optionalValue = None, reason = Some (userError ''boom''), done_ch = True\<rparr>,
         \<lparr>optionalValue = Some 3, reason = None, done_ch = True\<rparr>]
        ([Child 2 PromiseDone, Child 0 CtxDone, Child 1 PromiseDone] @ [Join])
    = Inr \<lparr>parent =
        \<lparr>optionalValue =
           Some [\<lparr>Status = Fulfilled, Value = 1, Reason = None\<rparr>,
             \<lparr>Status = Rejected, Value = 0, Reason = Some (userError ''boom'')\<rparr>,
             \<lparr>Status = Fulfilled, Value = 3, Reason = None\<rparr>],
           reason = None, done_ch = True\<rparr>,
        results =
          [\<lparr>Status = Fulfilled, Value = 1, Reason = None\<rparr>,
           \<lparr>Status = Rejected, Value = 0, Reason = Some (userError ''boom'')\<rparr>,
           \<lparr>Status = Fulfilled, Value = 3, Reason = None\<rparr>],
        wg = 0, exited = {0, 1, 2}, joined = True\<rparr>"
  using AllSettled_never_rejects
      [of 0 "\<lparr>ctx_done = False, ctx_err = None\<rparr>"
        "[\<lparr>optionalValue = Some (1::int), reason = None, done_ch = True\<rparr>,
         \<lparr>optionalValue = None, reason = Some (userError ''boom''), done_ch = True\<rparr>,
         \<lparr>optionalValue = Some 3, reason = None, done_ch = True\<rparr>]"
        "[Child 2 PromiseDone, Child 0 CtxDone, Child 1 PromiseDone]"]
  by (auto simp add: run_defs)

text \<open>
  Claim C7. All input promises are fulfilled, promise \<open>i\<close> with \<open>vs ! i\<close>, and every
  wait sees it (the token has not fired, or each \<^verbatim>\<open>select\<close> takes the promise's case).
  Then in whatever order the goroutines are scheduled, and whatever else the schedule
  holds, once each has been scheduled the executor fulfils the parent of \<^verbatim>\<open>All\<close> with
  \<open>vs\<close> itself, and the parent of \<^verbatim>\<open>AllSettled\<close> with the \<^verbatim>\<open>Fulfilled\<close> results of
  \<open>vs\<close> in the same order.
\<close>

theorem results_follow_input_index:
  assumes "length vs = length promises"
    and "\<forall>i<length promises.
        promises ! i = \<lparr>optionalValue = Some (vs ! i), reason = None, done_ch = True\<rparr>"
    and "\<not> ctx_done ctx \<or> (\<forall>i pick. Child i pick \<in> set evs \<longrightarrow> pick = PromiseDone)"
    and "\<forall>i<length promises. \<exists>pick. Child i pick \<in> set evs"
  shows "(\<exists>st. All_promises zero ctx promises (evs @ [Join]) = Inr st
           \<and> parent st = \<lparr>optionalValue = Some vs, reason = None, done_ch = True\<rparr>)
     \<and> (\<exists>st. AllSettled zero ctx promises (evs @ [Join]) = Inr st
           \<and> parent st = \<lparr>optionalValue = Some (map (\<lambda>v. \<lparr>Status = Fulfilled, Value = v, Reason = None\<rparr>) vs),
                      reason = None, done_ch = True\<rparr>)"
  using All_values [OF assms] AllSettled_values [OF assms] by simp

theorem results_follow_input_index_witness:
  "(\<exists>st. All_promises 0 \<lparr>ctx_done = False, ctx_err = None\<rparr>
            (map (\<lambda>k. \<lparr>optionalValue = Some (int k), reason = None, done_ch = True\<rparr>) [0..<100])
            (map (\<lambda>k. Child k PromiseDone) (rev [0..<100]) @ [Join]) = Inr st
          \<and> parent st = \<lparr>optionalValue = Some (map int [0..<100]), reason = None, done_ch = True\<rparr>)
   \<and> (\<exists>st. AllSettled 0 \<lparr>ctx_done = False, ctx_err = None\<rparr>
            (map (\<lambda>k. \<lparr>optionalValue = Some (int k), reason = None, done_ch = True\<rparr>) [0..<100])
            (map (\<lambda>k. Child k PromiseDone) (rev [0..<100]) @ [Join]) = Inr st
          \<and> parent st = \<lparr>optionalValue = Some (map (\<lambda>v. \<lparr>Status = Fulfilled, Value = v, Reason = None\<rparr>)
                                                  (map int [0..<100])),
                           reason = None, done_ch = True\<rparr>)"
proof -
  let ?ps = "map (\<lambda>k. \<lparr>optionalValue = Some (int k), reason = None, done_ch = True\<rparr>) [0..<100]"
  let ?evs = "map (\<lambda>k. Child k PromiseDone) (rev [0..<100])"
  have h1: "length (map int [0..<100]) = length ?ps" by simp
  have h2: "\<forall>i<length ?ps.
        ?ps ! i = \<lparr>optionalValue = Some (map int [0..<100] ! i), reason = None, done_ch = True\<rparr>"
    by simp
  have h3: "\<not> ctx_done \<lparr>ctx_done = False, ctx_err = None\<rparr>
      \<or> (\<forall>i pick. Child i pick \<in> set ?evs \<longrightarrow> pick = PromiseDone)" by simp
  have h4: "\<forall>i<length ?ps. \<exists>pick. Child i pick \<in> set ?evs"
  proof (intro allI impI)
    fix i assume "i < length ?ps"
    then have "Child i PromiseDone \<in> set ?evs" by simp
    then show "\<exists>pick. Child i pick \<in> set ?evs" ..
  qed
  from results_follow_input_index [OF h1 h2 h3 h4, of 0] show ?thesis .
qed

text \<open>
  Claim C10. With no input promise the executor's \<^verbatim>\<open>wg.Wait()\<close> returns at once:
  whatever is scheduled before and after it, the parent of \<^verbatim>\<open>All\<close> and of
  \<^verbatim>\<open>AllSettled\<close> is fulfilled with the empty slice, and a waiter gets it with no
  error.
\<close>

theorem empty_aggregation_fulfils:
  "All_promises zero ctx [] (evs @ Join # evs')
     = Inr \<lparr>parent = \<lparr>optionalValue = Some [], reason = None, done_ch = True\<rparr>,
            results = [], wg = 0, exited = {}, joined = True\<rparr>
   \<and> AllSettled zero ctx [] (evs @ Join # evs')
     = Inr \<lparr>parent = \<lparr>optionalValue = Some [], reason = None, done_ch = True\<rparr>,
            results = [], wg = 0, exited = {}, joined = True\<rparr>
   \<and> Await [] pick \<lparr>ctx_done = False, ctx_err = None\<rparr>
        \<lparr>optionalValue = Some ([] :: 'a list), reason = None, done_ch = True\<rparr> = Some ([], None)
   \<and> length ([] :: 'a list) = 0"
  by (simp add: All_promises_def AllSettled_def All_run_empty AllSettled_run_empty
      Await_def select_done_def Option_Value_def)

end
